theory Spec2Isabelle
  imports Main "HOL-Library.FSet"
begin

section \<open>The parsed document\<close>

text \<open>
  \<^verbatim>\<open>web_crawler.py\<close> uses a parsed HTML document (\<^verbatim>\<open>soup\<close>) through three operations:
  \<^verbatim>\<open>find_all\<close> of a tag name, reading an attribute of a tag, and \<^verbatim>\<open>get_text\<close>; and it
  mutates the document by \<^verbatim>\<open>extract()\<close>. The document is a forest of nodes: a text
  node, or a tag with its attribute dictionary (the items of the dictionary, keys
  distinct) and its children.
\<close>

datatype node = Text string | Tag string "(string \<times> string) list" "node list"

type_synonym soup = "node list"

fun find_all :: "string \<Rightarrow> node \<Rightarrow> node list" where
  "find_all name (Text s) = []"
| "find_all name (Tag n attrs cs) =
     (if n = name then [Tag n attrs cs] else []) @ concat (map (find_all name) cs)"

definition soup_find_all :: "string \<Rightarrow> soup \<Rightarrow> node list" where
  "soup_find_all name soup = concat (map (find_all name) soup)"

fun get_attr :: "node \<Rightarrow> string \<Rightarrow> string option" where
  "get_attr (Text s) k = None"
| "get_attr (Tag n attrs cs) k = map_of attrs k"

text \<open>
  \<^verbatim>\<open>for script in soup(["script", "style"]): script.extract()\<close> removes every subtree
  whose root is one of the named tags.
\<close>

fun extract_tags :: "string list \<Rightarrow> node \<Rightarrow> node list" where
  "extract_tags names (Text s) = [Text s]"
| "extract_tags names (Tag n attrs cs) =
     (if n \<in> set names then [] else [Tag n attrs (concat (map (extract_tags names) cs))])"

fun all_strings :: "node \<Rightarrow> string list" where
  "all_strings (Text s) = [s]"
| "all_strings (Tag n attrs cs) = concat (map all_strings cs)"

fun join :: "string \<Rightarrow> string list \<Rightarrow> string" where
  "join sep [] = []"
| "join sep [x] = x"
| "join sep (x # y # ys) = x @ sep @ join sep (y # ys)"

definition newline :: string where
  "newline = [CHR 0x0A]"

section \<open>The environment\<close>

text \<open>
  What the network answers to a page request: \<^verbatim>\<open>session.get\<close> raises (a timeout, a
  connection failure), or a response arrives, with the status code of the final response
  and the document \<^verbatim>\<open>BeautifulSoup\<close> makes of its body (\<open>None\<close> when the parser raises).
  \<^verbatim>\<open>raise_for_status\<close> of the requests library raises for the status codes 400 to 599
  and for no other: a final response with a 1xx or 3xx status passes it like a 2xx one.
\<close>

datatype http_result = Timeout | ConnectionFailed | Responded int "soup option"

definition raise_for_status :: "int \<Rightarrow> bool" where
  "raise_for_status status \<longleftrightarrow> 400 \<le> status \<and> status < 600"

text \<open>
  What lines 104 to 109 of \<^verbatim>\<open>download_page\<close> make of it, in three outcomes: lines 104 to
  106 raise (the request raised, or \<^verbatim>\<open>raise_for_status\<close> did); they pass and
  \<^verbatim>\<open>BeautifulSoup\<close> raises at line 109; or the page is parsed. For an image the response
  is an error (lines 195 and 196 raise), or a content type (empty when the header is
  absent) and a body.
\<close>

datatype page_response = FetchError | Unparseable | Parsed soup

datatype image_response = ImageError | ImageOk string string

datatype error = OSError | ValueError

text \<open>
  Everything outside the source file is a parameter: the network and the file system,
  indexed by a clock that counts the requests and writes made so far (so the same URL may
  answer differently at different times), the wall clock, the interleaving of the worker
  threads of one image batch, and the library functions on URLs and strings. A library
  function that can raise \<^verbatim>\<open>ValueError\<close> returns an option.
\<close>

record env =
  session_get :: "nat \<Rightarrow> string \<Rightarrow> http_result"
  http_get_image :: "nat \<Rightarrow> string \<Rightarrow> image_response"
  write_fails :: "nat \<Rightarrow> bool"
  now :: "nat \<Rightarrow> int"
  schedule :: "nat \<Rightarrow> nat list"
  urljoin :: "string \<Rightarrow> string \<Rightarrow> string option"
  url_netloc :: "string \<Rightarrow> string option"
  url_path :: "string \<Rightarrow> string option"
  splitext :: "string \<Rightarrow> string"
  str_lower :: "string \<Rightarrow> string"
  md5_hex :: "string \<Rightarrow> string"
  str_strip :: "string \<Rightarrow> string"
  str_splitlines :: "string \<Rightarrow> string list"
  str_of_int :: "int \<Rightarrow> string"
  format_time :: "int \<Rightarrow> string"

definition http_get_page :: "env \<Rightarrow> nat \<Rightarrow> string \<Rightarrow> page_response" where
  "http_get_page e t url =
     (case session_get e t url of
        Timeout \<Rightarrow> FetchError
      | ConnectionFailed \<Rightarrow> FetchError
      | Responded status parsed \<Rightarrow>
          if raise_for_status status then FetchError
          else (case parsed of None \<Rightarrow> Unparseable | Some soup \<Rightarrow> Parsed soup))"

section \<open>The crawler object\<close>

text \<open>
  The fields of \<^verbatim>\<open>WebCrawler\<close> that the crawl reads or writes, and the trace of what the
  crawler did to the outside: the page requests issued (URL, depth, response), the image
  requests issued, and the files written to the text and image directories (name,
  content), each in the order it happened. The session, the timeout and the logger have
  no effect on the control flow and are left out.
\<close>

record crawler =
  base_url :: string
  max_pages :: int
  max_depth :: int
  visited_urls :: "string fset"
  image_hashes :: "string fset"
  clock :: nat
  page_gets :: "(string \<times> int \<times> page_response) list"
  image_gets :: "(string \<times> image_response) list"
  text_files :: "(string \<times> string) list"
  image_files :: "(string \<times> string) list"

record stats =
  pages_crawled :: int
  texts_saved :: int
  images_downloaded :: int
  errors :: int

definition get_url_hash :: "env \<Rightarrow> string \<Rightarrow> string" where
  "get_url_hash e url = md5_hex e url"

definition get_image_hash :: "env \<Rightarrow> string \<Rightarrow> string" where
  "get_image_hash e image_data = md5_hex e image_data"

subsection \<open>download_page\<close>

definition download_page :: "env \<Rightarrow> crawler \<Rightarrow> string \<Rightarrow> int \<Rightarrow> soup option \<times> crawler" where
  "download_page e c url depth =
     (if url |\<in>| visited_urls c \<or> int (fcard (visited_urls c)) \<ge> max_pages c \<or> depth > max_depth c
      then (None, c)
      else
        let r = http_get_page e (clock c) url;
            c1 = c\<lparr>clock := Suc (clock c), page_gets := page_gets c @ [(url, depth, r)]\<rparr>
        in case r of
             FetchError \<Rightarrow> (None, c1)
           | Unparseable \<Rightarrow> (None, c1\<lparr>visited_urls := finsert url (visited_urls c1)\<rparr>)
           | Parsed soup \<Rightarrow> (Some soup, c1\<lparr>visited_urls := finsert url (visited_urls c1)\<rparr>))"

subsection \<open>extract_text\<close>

definition get_text :: "env \<Rightarrow> soup \<Rightarrow> string" where
  "get_text e soup =
     join newline (filter (\<lambda>s. s \<noteq> []) (map (str_strip e) (concat (map all_strings soup))))"

definition text_header :: "env \<Rightarrow> string \<Rightarrow> int \<Rightarrow> string" where
  "text_header e url timestamp =
     ''URL: '' @ url @ newline @ format_time e timestamp @ newline
       @ replicate 50 (CHR ''='') @ newline @ newline"

text \<open>
  \<^verbatim>\<open>extract_text\<close> returns the text; the model also returns the document, which the
  function changes in place, and the crawler with the file written. Opening or writing
  the file may raise, and nothing in \<^verbatim>\<open>extract_text\<close> or \<^verbatim>\<open>crawl\<close> catches that; a
  write that raised counts as no file.
\<close>

definition extract_text ::
  "env \<Rightarrow> crawler \<Rightarrow> soup \<Rightarrow> string \<Rightarrow> (error \<times> crawler) + (string \<times> soup \<times> crawler)" where
  "extract_text e c soup url =
     (let soup1 = concat (map (extract_tags [''script'', ''style'']) soup);
          text0 = get_text e soup1;
          lines = map (str_strip e) (filter (\<lambda>line. str_strip e line \<noteq> []) (str_splitlines e text0));
          text = join newline lines;
          url_hash = get_url_hash e url;
          timestamp = now e (clock c);
          filename = url_hash @ ''_'' @ str_of_int e timestamp @ ''.txt'';
          c1 = c\<lparr>clock := Suc (clock c)\<rparr>
      in if write_fails e (clock c) then Inl (OSError, c1)
         else Inr (text, soup1,
                   c1\<lparr>text_files := text_files c1 @ [(filename, text_header e url timestamp @ text)]\<rparr>))"

subsection \<open>download_image\<close>

text \<open>
  \<^verbatim>\<open>download_image\<close> runs on the threads of a pool, so the statements that read or write
  the shared \<^verbatim>\<open>image_hashes\<close> are separate steps of a worker: the request and the hash
  (lines 195 to 205), the membership test (line 208), the insertion (line 212), and the
  write of the file (lines 215 to 233). The whole body is inside \<^verbatim>\<open>try\<close>: every
  exception ends the worker with \<^verbatim>\<open>False\<close>.
\<close>

datatype worker =
    Pending string
  | Fetched string string string
  | Checked string string string
  | Added string string string
  | Finished bool

definition starts_with :: "string \<Rightarrow> string \<Rightarrow> bool" where
  "starts_with p s \<longleftrightarrow> take (length p) s = p"

definition image_ext :: "env \<Rightarrow> string \<Rightarrow> string option" where
  "image_ext e img_url =
     (case url_path e img_url of
        None \<Rightarrow> None
      | Some path \<Rightarrow>
          let ext = splitext e path
          in Some (if ext = [] \<or> str_lower e ext \<notin> set [''.jpg'', ''.jpeg'', ''.png'', ''.gif'', ''.bmp'', ''.webp'']
                   then ''.jpg'' else ext))"

fun worker_step :: "env \<Rightarrow> worker \<Rightarrow> crawler \<Rightarrow> worker \<times> crawler" where
  "worker_step e (Pending img_url) c =
     (let r = http_get_image e (clock c) img_url;
          c1 = c\<lparr>clock := Suc (clock c), image_gets := image_gets c @ [(img_url, r)]\<rparr>
      in case r of
           ImageError \<Rightarrow> (Finished False, c1)
         | ImageOk content_type img_data \<Rightarrow>
             if \<not> starts_with ''image/'' content_type then (Finished False, c1)
             else (Fetched img_url img_data (get_image_hash e img_data), c1))"
| "worker_step e (Fetched img_url img_data img_hash) c =
     (if img_hash |\<in>| image_hashes c then (Finished False, c)
      else (Checked img_url img_data img_hash, c))"
| "worker_step e (Checked img_url img_data img_hash) c =
     (Added img_url img_data img_hash, c\<lparr>image_hashes := finsert img_hash (image_hashes c)\<rparr>)"
| "worker_step e (Added img_url img_data img_hash) c =
     (let url_hash = get_url_hash e img_url;
          timestamp = now e (clock c)
      in case image_ext e img_url of
           None \<Rightarrow> (Finished False, c)
         | Some ext \<Rightarrow>
             let filename = url_hash @ ''_'' @ str_of_int e timestamp @ ext;
                 c1 = c\<lparr>clock := Suc (clock c)\<rparr>
             in if write_fails e (clock c) then (Finished False, c1)
                else (Finished True, c1\<lparr>image_files := image_files c1 @ [(filename, img_data)]\<rparr>))"
| "worker_step e (Finished b) c = (Finished b, c)"

text \<open>One call of \<^verbatim>\<open>download_image\<close> on its own: the four steps in a row.\<close>

definition download_image :: "env \<Rightarrow> crawler \<Rightarrow> string \<Rightarrow> bool \<times> crawler" where
  "download_image e c img_url =
     (let (w1, c1) = worker_step e (Pending img_url) c;
          (w2, c2) = worker_step e w1 c1;
          (w3, c3) = worker_step e w2 c2;
          (w4, c4) = worker_step e w3 c3
      in (w4 = Finished True, c4))"

subsection \<open>extract_images\<close>

text \<open>
  The pool has five threads and takes the submitted calls in order, so a call can run
  only while fewer than five calls submitted before it are unfinished. A schedule is a
  list of worker indices: each entry lets that worker take one step, when it can run.
  Leaving the \<^verbatim>\<open>with\<close> block waits for every submitted call, so after the schedule
  the remaining workers run to their end.
\<close>

definition unfinished :: "worker \<Rightarrow> bool" where
  "unfinished w = (case w of Finished b \<Rightarrow> False | _ \<Rightarrow> True)"

definition enabled :: "worker list \<Rightarrow> nat \<Rightarrow> bool" where
  "enabled ws i \<longleftrightarrow> i < length ws \<and> length (filter unfinished (take i ws)) < 5"

definition pool_step :: "env \<Rightarrow> nat \<Rightarrow> worker list \<times> crawler \<Rightarrow> worker list \<times> crawler" where
  "pool_step e i s =
     (case s of (ws, c) \<Rightarrow>
        if enabled ws i then (case worker_step e (ws ! i) c of (w, c1) \<Rightarrow> (ws[i := w], c1))
        else (ws, c))"

fun run_schedule :: "env \<Rightarrow> nat list \<Rightarrow> worker list \<times> crawler \<Rightarrow> worker list \<times> crawler" where
  "run_schedule e [] s = s"
| "run_schedule e (i # sched) s = run_schedule e sched (pool_step e i s)"

definition drain :: "env \<Rightarrow> worker list \<times> crawler \<Rightarrow> worker list \<times> crawler" where
  "drain e s = run_schedule e (concat (map (\<lambda>i. [i, i, i, i]) [0..<length (fst s)])) s"

text \<open>
  The submission loop: the image URLs submitted, and whether \<^verbatim>\<open>urljoin\<close> raised (which
  ends the loop; the calls already submitted still run).
\<close>

fun image_urls :: "env \<Rightarrow> string \<Rightarrow> node list \<Rightarrow> string list \<times> bool" where
  "image_urls e base [] = ([], False)"
| "image_urls e base (img # imgs) =
     (case get_attr img ''src'' of
        None \<Rightarrow> image_urls e base imgs
      | Some src \<Rightarrow>
          if src = [] then image_urls e base imgs
          else (case urljoin e base src of
                  None \<Rightarrow> ([], True)
                | Some img_url \<Rightarrow>
                    (case image_urls e base imgs of (urls, raised) \<Rightarrow> (img_url # urls, raised))))"

definition extract_images ::
  "env \<Rightarrow> crawler \<Rightarrow> soup \<Rightarrow> string \<Rightarrow> (error \<times> crawler) + (int \<times> crawler)" where
  "extract_images e c soup base =
     (case image_urls e base (soup_find_all ''img'' soup) of (urls, raised) \<Rightarrow>
        (case drain e (run_schedule e (schedule e (clock c)) (map Pending urls, c)) of (ws, c1) \<Rightarrow>
           if raised then Inl (ValueError, c1)
           else Inr (int (length (filter (\<lambda>w. w = Finished True) ws)), c1)))"

subsection \<open>extract_links\<close>

definition http_prefix :: "string \<Rightarrow> bool" where
  "http_prefix u \<longleftrightarrow> starts_with ''http://'' u \<or> starts_with ''https://'' u"

fun links_of :: "env \<Rightarrow> string \<Rightarrow> string list \<Rightarrow> error + string list" where
  "links_of e base [] = Inr []"
| "links_of e base (href # hrefs) =
     (case urljoin e base href of
        None \<Rightarrow> Inl ValueError
      | Some full_url \<Rightarrow>
          if http_prefix full_url then
            (case url_netloc e full_url of
               None \<Rightarrow> Inl ValueError
             | Some n1 \<Rightarrow>
                 (case url_netloc e base of
                    None \<Rightarrow> Inl ValueError
                  | Some n2 \<Rightarrow>
                      (case links_of e base hrefs of
                         Inl er \<Rightarrow> Inl er
                       | Inr links \<Rightarrow> Inr (if n1 = n2 then full_url # links else links))))
          else links_of e base hrefs)"

definition extract_links :: "env \<Rightarrow> soup \<Rightarrow> string \<Rightarrow> error + string list" where
  "extract_links e soup base =
     links_of e base (List.map_filter (\<lambda>a_tag. get_attr a_tag ''href'') (soup_find_all ''a'' soup))"

subsection \<open>crawl\<close>

text \<open>
  The state of the loop of \<^verbatim>\<open>crawl\<close>: the crawler, the queue and the statistics. One
  iteration either completes (\<open>Inr\<close>) or an exception leaves the loop (\<open>Inl\<close>, with the
  state at that moment). The loop runs its body on a queue that is not empty; the pause at
  the end of an iteration changes nothing here.
\<close>

type_synonym run = "crawler \<times> (string \<times> int) list \<times> stats"

primrec append_links ::
  "crawler \<Rightarrow> int \<Rightarrow> string list \<Rightarrow> (string \<times> int) list \<Rightarrow> (string \<times> int) list" where
  "append_links c depth [] queue = queue"
| "append_links c depth (link # links) queue =
     append_links c depth links
       (if link |\<notin>| visited_urls c then queue @ [(link, depth + 1)] else queue)"

definition crawl_body :: "env \<Rightarrow> run \<Rightarrow> (error \<times> run) + run" where
  "crawl_body e s =
     (case s of (c, queue, st) \<Rightarrow>
       (case queue of
          [] \<Rightarrow> Inr (c, queue, st)
        | (url, depth) # queue1 \<Rightarrow>
            if url |\<in>| visited_urls c then Inr (c, queue1, st)
            else
              (case download_page e c url depth of
                 (None, c1) \<Rightarrow> Inr (c1, queue1, st\<lparr>errors := errors st + 1\<rparr>)
               | (Some soup, c1) \<Rightarrow>
                   let st1 = st\<lparr>pages_crawled := pages_crawled st + 1\<rparr>
                   in (case extract_text e c1 soup url of
                         Inl (er, c2) \<Rightarrow> Inl (er, c2, queue1, st1)
                       | Inr (text, soup1, c2) \<Rightarrow>
                           let st2 = st1\<lparr>texts_saved := texts_saved st1 + 1\<rparr>
                           in (case extract_images e c2 soup1 url of
                                 Inl (er, c3) \<Rightarrow> Inl (er, c3, queue1, st2)
                               | Inr (img_count, c3) \<Rightarrow>
                                   let st3 = st2\<lparr>images_downloaded := images_downloaded st2 + img_count\<rparr>
                                   in if depth < max_depth c3 then
                                        (case extract_links e soup1 url of
                                           Inl er \<Rightarrow> Inl (er, c3, queue1, st3)
                                         | Inr links \<Rightarrow> Inr (c3, append_links c3 depth links queue1, st3))
                                      else Inr (c3, queue1, st3))))))"

definition loop_guard :: "run \<Rightarrow> bool" where
  "loop_guard s \<longleftrightarrow> (case s of (c, queue, st) \<Rightarrow> queue \<noteq> [] \<and> int (fcard (visited_urls c)) < max_pages c)"

text \<open>
  The loop of \<^verbatim>\<open>crawl\<close>. It ends when the queue is empty or the visited set has
  \<^verbatim>\<open>max_pages\<close> URLs, or when an iteration raises. Its termination is proved below, after
  the lemmas on one iteration.
\<close>

function crawl_loop :: "env \<Rightarrow> run \<Rightarrow> (error \<times> run) + run" where
  "crawl_loop e s =
     (if loop_guard s then
        (case crawl_body e s of
           Inl raised \<Rightarrow> Inl raised
         | Inr s1 \<Rightarrow> crawl_loop e s1)
      else Inr s)"
  by pat_completeness auto

text \<open>
  The state in which a run ended, whether the loop returned or raised.
\<close>

definition final :: "(error \<times> run) + run \<Rightarrow> run" where
  "final r = (case r of Inl raised \<Rightarrow> snd raised | Inr s \<Rightarrow> s)"

text \<open>
  \<^verbatim>\<open>__init__\<close> (creating the storage directories is left out) and \<^verbatim>\<open>crawl\<close>: the queue
  starts with the seed at depth 0, and the statistics are returned when the loop
  returns.
\<close>

definition zero_stats :: stats where
  "zero_stats = \<lparr>pages_crawled = 0, texts_saved = 0, images_downloaded = 0, errors = 0\<rparr>"

definition new_crawler :: "string \<Rightarrow> int \<Rightarrow> int \<Rightarrow> crawler" where
  "new_crawler url mp md =
     \<lparr>base_url = url, max_pages = mp, max_depth = md, visited_urls = {||}, image_hashes = {||},
      clock = 0, page_gets = [], image_gets = [], text_files = [], image_files = []\<rparr>"

definition start :: "crawler \<Rightarrow> run" where
  "start c = (c, [(base_url c, 0)], zero_stats)"

definition crawl :: "env \<Rightarrow> crawler \<Rightarrow> (error \<times> run) + (stats \<times> crawler)" where
  "crawl e c =
     (case crawl_loop e (start c) of
        Inl raised \<Rightarrow> Inl raised
      | Inr (c1, queue, st) \<Rightarrow> Inr (st, c1))"

text \<open>The loop with a bound on the number of iterations: \<open>None\<close> when the bound is reached.\<close>

fun crawl_fuel :: "nat \<Rightarrow> env \<Rightarrow> run \<Rightarrow> ((error \<times> run) + run) option" where
  "crawl_fuel 0 e s = None"
| "crawl_fuel (Suc n) e s =
     (if loop_guard s then
        (case crawl_body e s of
           Inl raised \<Rightarrow> Some (Inl raised)
         | Inr s1 \<Rightarrow> crawl_fuel n e s1)
      else Some (Inr s))"

section \<open>Traces, reachable states and invariants\<close>

text \<open>
  The fields of the crawler that downloading images leaves alone.
\<close>

definition crawl_fields ::
  "crawler \<Rightarrow> string \<times> int \<times> int \<times> string fset \<times> (string \<times> int \<times> page_response) list \<times> (string \<times> string) list" where
  "crawl_fields c = (base_url c, max_pages c, max_depth c, visited_urls c, page_gets c, text_files c)"

text \<open>
  The URLs whose page request succeeded (lines 104 to 106 raised nothing), in the order of
  the requests.
\<close>

definition fetched_urls :: "crawler \<Rightarrow> string list" where
  "fetched_urls c = map fst (filter (\<lambda>g. snd (snd g) \<noteq> FetchError) (page_gets c))"

text \<open>
  A trace of page requests in which no URL is requested again after a request for it
  succeeded.
\<close>

fun no_refetch :: "(string \<times> int \<times> page_response) list \<Rightarrow> bool" where
  "no_refetch [] = True"
| "no_refetch (g # gs) = ((snd (snd g) \<noteq> FetchError \<longrightarrow> fst g \<notin> set (map fst gs)) \<and> no_refetch gs)"

definition fetch_inv :: "run \<Rightarrow> bool" where
  "fetch_inv s \<longleftrightarrow>
     set (fetched_urls (fst s)) = fset (visited_urls (fst s)) \<and>
     distinct (fetched_urls (fst s)) \<and>
     no_refetch (page_gets (fst s)) \<and>
     int (fcard (visited_urls (fst s))) \<le> max 0 (max_pages (fst s))"

text \<open>The states of the loop that a run passes through, from the state it starts in.\<close>

inductive reachable :: "env \<Rightarrow> run \<Rightarrow> run \<Rightarrow> bool" for e :: env and s0 :: run where
  reachable_start: "reachable e s0 s0"
| reachable_step: "reachable e s0 s \<Longrightarrow> loop_guard s \<Longrightarrow> crawl_body e s = Inr s1 \<Longrightarrow> reachable e s0 s1"

text \<open>
  A URL of the frontier has the origin of the seed when it is the seed, or an absolute
  \<^verbatim>\<open>http://\<close> or \<^verbatim>\<open>https://\<close> URL with the seed's network location. The host is a part of
  the network location, so a URL whose host differs from the seed's has another network
  location.
\<close>

definition same_origin :: "env \<Rightarrow> string \<Rightarrow> string \<Rightarrow> bool" where
  "same_origin e seed u \<longleftrightarrow> u = seed \<or> (http_prefix u \<and> url_netloc e u = url_netloc e seed)"

definition is_parsed :: "page_response \<Rightarrow> bool" where
  "is_parsed r = (case r of Parsed soup \<Rightarrow> True | _ \<Rightarrow> False)"

definition parsed_gets :: "crawler \<Rightarrow> (string \<times> int \<times> page_response) list" where
  "parsed_gets c = filter (\<lambda>g. is_parsed (snd (snd g))) (page_gets c)"

definition failed_gets :: "crawler \<Rightarrow> (string \<times> int \<times> page_response) list" where
  "failed_gets c = filter (\<lambda>g. \<not> is_parsed (snd (snd g))) (page_gets c)"

definition text_inv :: "run \<Rightarrow> bool" where
  "text_inv s \<longleftrightarrow> (case s of (c, q, st) \<Rightarrow>
     pages_crawled st = int (length (parsed_gets c)) \<and> texts_saved st = pages_crawled st \<and>
     int (length (text_files c)) = texts_saved st)"

definition error_inv :: "run \<Rightarrow> bool" where
  "error_inv s \<longleftrightarrow> (case s of (c, q, st) \<Rightarrow>
     errors st = int (length (failed_gets c)) \<and> (\<forall>x \<in> set q. snd x \<le> max_depth c))"

text \<open>
  What the code aims at: the files written so far have pairwise different content hashes,
  all of them in \<^verbatim>\<open>image_hashes\<close>. A call of \<^verbatim>\<open>download_image\<close> that runs on its own,
  with no other worker between its membership test and its insertion, keeps this.
\<close>

text \<open>
  The string \<^verbatim>\<open>extract_text\<close> returns for a document, and the file it writes for the page
  at a URL when the clock shows \<open>t\<close>: the name from the hash of the URL and the time, the
  content the header and then that string.
\<close>

definition page_text :: "env \<Rightarrow> soup \<Rightarrow> string" where
  "page_text e soup =
     join newline (map (str_strip e) (filter (\<lambda>line. str_strip e line \<noteq> [])
       (str_splitlines e (get_text e (concat (map (extract_tags [''script'', ''style'']) soup))))))"

definition text_file :: "env \<Rightarrow> string \<Rightarrow> soup \<Rightarrow> nat \<Rightarrow> string \<times> string" where
  "text_file e url soup t =
     (get_url_hash e url @ ''_'' @ str_of_int e (now e t) @ ''.txt'',
      text_header e url (now e t) @ page_text e soup)"

text \<open>A file is the saved text of a page request: the request was parsed, and the file is
  the one \<^verbatim>\<open>extract_text\<close> writes for its URL and document at some time.\<close>

definition saved_as :: "env \<Rightarrow> string \<times> int \<times> page_response \<Rightarrow> string \<times> string \<Rightarrow> bool" where
  "saved_as e g f \<longleftrightarrow>
     (case snd (snd g) of Parsed soup \<Rightarrow> (\<exists>t. f = text_file e (fst g) soup t) | _ \<Rightarrow> False)"

definition saved_inv :: "env \<Rightarrow> run \<Rightarrow> bool" where
  "saved_inv e s \<longleftrightarrow> list_all2 (saved_as e) (parsed_gets (fst s)) (text_files (fst s))"

definition dedup_inv :: "env \<Rightarrow> crawler \<Rightarrow> bool" where
  "dedup_inv e c \<longleftrightarrow>
     distinct (map (\<lambda>f. get_image_hash e (snd f)) (image_files c)) \<and>
     (\<forall>f \<in> set (image_files c). get_image_hash e (snd f) |\<in>| image_hashes c)"

text \<open>
  A worker that is not between two of its steps: it has not started, or it has finished.
\<close>

definition idle :: "worker \<Rightarrow> bool" where
  "idle w = (case w of Pending u \<Rightarrow> True | Finished b \<Rightarrow> True | _ \<Rightarrow> False)"

section \<open>An example site\<close>

text \<open>
  A site for the concrete runs below. The seed page links to \<^verbatim>\<open>/p1\<close>, which always
  answers with status 500, to another host, and to \<^verbatim>\<open>/p2\<close>, which links back to
  \<^verbatim>\<open>/p1\<close>; the seed page has two images with the same bytes, and \<^verbatim>\<open>/p2\<close> has an image
  whose request fails. \<^verbatim>\<open>/choices\<close> answers with status 300 and a page; every other URL
  refuses the connection. The library functions are stand-ins that are right on the URLs
  of the site; the hash is the identity.
\<close>

definition seed_page :: soup where
  "seed_page =
     [Tag ''html'' []
        [Tag ''script'' [] [Text ''var x;''],
         Tag ''a'' [(''href'', ''/p1'')] [Text ''one''],
         Tag ''a'' [(''href'', ''http://b.com/x'')] [Text ''ext''],
         Tag ''a'' [(''href'', ''/p2'')] [Text ''two''],
         Tag ''img'' [(''src'', ''/i1.png'')] [],
         Tag ''img'' [(''src'', ''/i2.png'')] []]]"

definition p2_page :: soup where
  "p2_page =
     [Tag ''a'' [(''href'', ''/p1'')] [Text ''back''],
      Tag ''img'' [(''src'', ''/broken.png'')] []]"

definition choices_page :: soup where
  "choices_page = [Tag ''p'' [] [Text ''choose'']]"

definition example_env :: env where
  "example_env =
     \<lparr>session_get = (\<lambda>t url. if url = ''http://a.com/'' then Responded 200 (Some seed_page)
                            else if url = ''http://a.com/p2'' then Responded 200 (Some p2_page)
                            else if url = ''http://a.com/p1'' then Responded 500 (Some [Text ''error''])
                            else if url = ''http://a.com/choices'' then Responded 300 (Some choices_page)
                            else ConnectionFailed),
      http_get_image = (\<lambda>t url. if url = ''http://a.com/i1.png'' \<or> url = ''http://a.com/i2.png''
                               then ImageOk ''image/png'' ''PNGDATA'' else ImageError),
      write_fails = (\<lambda>t. False),
      now = (\<lambda>t. 1700000000),
      schedule = (\<lambda>t. []),
      urljoin = (\<lambda>base href. if starts_with ''http'' href then Some href else Some (''http://a.com'' @ href)),
      url_netloc = (\<lambda>u. if starts_with ''http://a.com/'' u then Some ''a.com''
                         else if starts_with ''http://b.com/'' u then Some ''b.com'' else Some []),
      url_path = (\<lambda>u. Some (drop 12 u)),
      splitext = (\<lambda>p. if p = ''/i1.png'' \<or> p = ''/i2.png'' then ''.png'' else []),
      str_lower = (\<lambda>s. s),
      md5_hex = (\<lambda>s. s),
      str_strip = (\<lambda>s. s),
      str_splitlines = (\<lambda>s. [s]),
      str_of_int = (\<lambda>i. ''1700000000''),
      format_time = (\<lambda>i. ''2023-11-14 22:13:20'')\<rparr>"

text \<open>
  The same site with the two image workers interleaved (each does its request, then each
  does its membership test, before either inserts), and with a disk that refuses every
  write.
\<close>

definition racy_env :: env where
  "racy_env = example_env\<lparr>schedule := (\<lambda>t. [0, 1, 0, 1])\<rparr>"

definition full_disk_env :: env where
  "full_disk_env = example_env\<lparr>write_fails := (\<lambda>t. True)\<rparr>"

section \<open>Effects of one iteration\<close>

lemma worker_step_fields: "worker_step e w c = (w', c') \<Longrightarrow> crawl_fields c' = crawl_fields c"
  by (cases w) (auto simp: crawl_fields_def Let_def split: image_response.splits option.splits if_splits)

lemma pool_step_fields: "pool_step e i (ws, c) = (ws', c') \<Longrightarrow> crawl_fields c' = crawl_fields c"
  by (auto simp: pool_step_def split: if_splits prod.splits dest: worker_step_fields)

lemma run_schedule_fields: "run_schedule e sched (ws, c) = (ws', c') \<Longrightarrow> crawl_fields c' = crawl_fields c"
proof (induction sched arbitrary: ws c)
  case Nil
  then show ?case by simp
next
  case (Cons i sched)
  obtain ws1 c1 where step: "pool_step e i (ws, c) = (ws1, c1)" by (cases "pool_step e i (ws, c)")
  with Cons.prems have "run_schedule e sched (ws1, c1) = (ws', c')" by simp
  then have "crawl_fields c' = crawl_fields c1" by (rule Cons.IH)
  with pool_step_fields [OF step] show ?case by simp
qed

lemma drain_fields: "drain e (ws, c) = (ws', c') \<Longrightarrow> crawl_fields c' = crawl_fields c"
  unfolding drain_def by (rule run_schedule_fields)

lemma pool_fields:
  assumes "drain e (run_schedule e sched (ws, c)) = (ws', c')"
  shows "crawl_fields c' = crawl_fields c"
proof -
  obtain ws1 c1 where r: "run_schedule e sched (ws, c) = (ws1, c1)"
    by (cases "run_schedule e sched (ws, c)")
  with assms have "drain e (ws1, c1) = (ws', c')" by simp
  then have "crawl_fields c' = crawl_fields c1" by (rule drain_fields)
  with run_schedule_fields [OF r] show ?thesis by simp
qed

lemma extract_images_fields_Inr:
  "extract_images e c soup base = Inr (n, c') \<Longrightarrow> crawl_fields c' = crawl_fields c"
  by (auto simp: extract_images_def split: prod.splits if_splits dest: pool_fields)

lemma extract_images_fields_Inl:
  "extract_images e c soup base = Inl (er, c') \<Longrightarrow> crawl_fields c' = crawl_fields c"
  by (auto simp: extract_images_def split: prod.splits if_splits dest: pool_fields)

lemma download_page_fields:
  assumes "download_page e c url depth = (r, c')"
  shows "base_url c' = base_url c \<and> max_pages c' = max_pages c \<and> max_depth c' = max_depth c
     \<and> image_hashes c' = image_hashes c \<and> image_gets c' = image_gets c
     \<and> text_files c' = text_files c \<and> image_files c' = image_files c"
  using assms by (auto simp: download_page_def Let_def split: if_splits page_response.splits)

lemma download_page_None:
  assumes "download_page e c url depth = (None, c')"
  shows "visited_urls c' = visited_urls c \<or> (url |\<notin>| visited_urls c \<and> visited_urls c' = finsert url (visited_urls c))"
  using assms by (auto simp: download_page_def Let_def split: if_splits page_response.splits)

lemma download_page_Some:
  assumes "download_page e c url depth = (Some soup, c')"
  shows "url |\<notin>| visited_urls c \<and> visited_urls c' = finsert url (visited_urls c)
     \<and> int (fcard (visited_urls c)) < max_pages c \<and> depth \<le> max_depth c
     \<and> http_get_page e (clock c) url = Parsed soup
     \<and> page_gets c' = page_gets c @ [(url, depth, Parsed soup)] \<and> clock c' = Suc (clock c)"
  using assms by (auto simp: download_page_def Let_def split: if_splits page_response.splits)

lemma extract_text_fields:
  assumes "extract_text e c soup url = r" "c' = (case r of Inl (er, c2) \<Rightarrow> c2 | Inr (t, s1, c2) \<Rightarrow> c2)"
  shows "base_url c' = base_url c \<and> max_pages c' = max_pages c \<and> max_depth c' = max_depth c
     \<and> visited_urls c' = visited_urls c \<and> image_hashes c' = image_hashes c
     \<and> page_gets c' = page_gets c \<and> image_gets c' = image_gets c \<and> image_files c' = image_files c"
  using assms by (auto simp: extract_text_def Let_def split: if_splits)

lemma extract_text_Inr:
  assumes "extract_text e c soup url = Inr (tx, soup1, c')"
  shows "\<exists>f. text_files c' = text_files c @ [f]"
  using assms by (auto simp: extract_text_def Let_def split: if_splits)

lemma extract_text_returns:
  assumes "extract_text e c soup url = Inr (tx, soup1, c')"
  shows "soup1 = concat (map (extract_tags [''script'', ''style'']) soup) \<and>
     (\<exists>name. text_files c' = text_files c @ [(name, text_header e url (now e (clock c)) @ tx)]) \<and>
     clock c' = Suc (clock c)"
  using assms by (auto simp: extract_text_def Let_def split: if_splits)

lemma extract_text_raises:
  assumes "extract_text e c soup url = Inl (er, c')"
  shows "er = OSError \<and> c' = c\<lparr>clock := Suc (clock c)\<rparr>"
  using assms by (auto simp: extract_text_def Let_def split: if_splits)

lemma extract_text_same_text:
  assumes "extract_text e c soup url = Inr (tx, soup1, c')"
    "extract_text e c2 soup url2 = Inr (tx2, soup2, c2')"
  shows "tx2 = tx \<and> soup2 = soup1"
  using assms by (auto simp: extract_text_def Let_def split: if_splits)

lemma crawl_body_elims [consumes 1, case_names seen failed text_raised images_raised deep links_raised linked]:
  assumes "crawl_body e (c, (url, depth) # q, st) = r"
  obtains
    "url |\<in>| visited_urls c" "r = Inr (c, q, st)"
  | c1 where "url |\<notin>| visited_urls c" "download_page e c url depth = (None, c1)"
      "r = Inr (c1, q, st\<lparr>errors := errors st + 1\<rparr>)"
  | soup c1 er c2 where "url |\<notin>| visited_urls c" "download_page e c url depth = (Some soup, c1)"
      "extract_text e c1 soup url = Inl (er, c2)"
      "r = Inl (er, c2, q, st\<lparr>pages_crawled := pages_crawled st + 1\<rparr>)"
  | soup c1 tx soup1 c2 er c3 where "url |\<notin>| visited_urls c"
      "download_page e c url depth = (Some soup, c1)"
      "extract_text e c1 soup url = Inr (tx, soup1, c2)"
      "extract_images e c2 soup1 url = Inl (er, c3)"
      "r = Inl (er, c3, q, st\<lparr>pages_crawled := pages_crawled st + 1, texts_saved := texts_saved st + 1\<rparr>)"
  | soup c1 tx soup1 c2 n c3 where "url |\<notin>| visited_urls c"
      "download_page e c url depth = (Some soup, c1)"
      "extract_text e c1 soup url = Inr (tx, soup1, c2)"
      "extract_images e c2 soup1 url = Inr (n, c3)"
      "\<not> depth < max_depth c3"
      "r = Inr (c3, q, st\<lparr>pages_crawled := pages_crawled st + 1, texts_saved := texts_saved st + 1,
                 images_downloaded := images_downloaded st + n\<rparr>)"
  | soup c1 tx soup1 c2 n c3 er where "url |\<notin>| visited_urls c"
      "download_page e c url depth = (Some soup, c1)"
      "extract_text e c1 soup url = Inr (tx, soup1, c2)"
      "extract_images e c2 soup1 url = Inr (n, c3)"
      "depth < max_depth c3"
      "extract_links e soup1 url = Inl er"
      "r = Inl (er, c3, q, st\<lparr>pages_crawled := pages_crawled st + 1, texts_saved := texts_saved st + 1,
                 images_downloaded := images_downloaded st + n\<rparr>)"
  | soup c1 tx soup1 c2 n c3 links where "url |\<notin>| visited_urls c"
      "download_page e c url depth = (Some soup, c1)"
      "extract_text e c1 soup url = Inr (tx, soup1, c2)"
      "extract_images e c2 soup1 url = Inr (n, c3)"
      "depth < max_depth c3"
      "extract_links e soup1 url = Inr links"
      "r = Inr (c3, append_links c3 depth links q, st\<lparr>pages_crawled := pages_crawled st + 1,
                 texts_saved := texts_saved st + 1, images_downloaded := images_downloaded st + n\<rparr>)"
  using assms
  by (auto simp: crawl_body_def Let_def split: if_splits prod.splits option.splits sum.splits)

lemma crawl_body_visited:
  assumes "crawl_body e (c, (url, depth) # q, st) = r" "final r = (c', q', st')"
  shows "max_pages c' = max_pages c \<and> max_depth c' = max_depth c \<and> base_url c' = base_url c \<and>
     ((visited_urls c' = visited_urls c \<and> q' = q) \<or> (url |\<notin>| visited_urls c \<and> visited_urls c' = finsert url (visited_urls c)))"
  using assms 
proof (cases rule: crawl_body_elims)
  case seen
  with assms(2) show ?thesis by (simp add: final_def)
next
  case (failed c1)
  with assms(2) download_page_fields [OF failed(2)] download_page_None [OF failed(2)]
  show ?thesis by (auto simp add: final_def)
next
  case (text_raised soup c1 er c2)
  with assms(2) download_page_fields [OF text_raised(2)] download_page_Some [OF text_raised(2)]
    extract_text_fields [OF text_raised(3) refl]
  show ?thesis by (simp add: final_def)
next
  case (images_raised soup c1 tx soup1 c2 er c3)
  with assms(2) download_page_fields [OF images_raised(2)] download_page_Some [OF images_raised(2)]
    extract_text_fields [OF images_raised(3) refl] extract_images_fields_Inl [OF images_raised(4)]
  show ?thesis by (simp add: final_def crawl_fields_def)
next
  case (deep soup c1 tx soup1 c2 n c3)
  with assms(2) download_page_fields [OF deep(2)] download_page_Some [OF deep(2)]
    extract_text_fields [OF deep(3) refl] extract_images_fields_Inr [OF deep(4)]
  show ?thesis by (simp add: final_def crawl_fields_def)
next
  case (links_raised soup c1 tx soup1 c2 n c3 er)
  with assms(2) download_page_fields [OF links_raised(2)] download_page_Some [OF links_raised(2)]
    extract_text_fields [OF links_raised(3) refl] extract_images_fields_Inr [OF links_raised(4)]
  show ?thesis by (simp add: final_def crawl_fields_def)
next
  case (linked soup c1 tx soup1 c2 n c3 links)
  with assms(2) download_page_fields [OF linked(2)] download_page_Some [OF linked(2)]
    extract_text_fields [OF linked(3) refl] extract_images_fields_Inr [OF linked(4)]
  show ?thesis by (simp add: final_def crawl_fields_def)
qed

lemma crawl_body_log:
  assumes "crawl_body e (c, (url, depth) # q, st) = r" "final r = (c', q', st')"
  shows "if url |\<notin>| visited_urls c \<and> int (fcard (visited_urls c)) < max_pages c \<and> depth \<le> max_depth c
     then page_gets c' = page_gets c @ [(url, depth, http_get_page e (clock c) url)] \<and>
          visited_urls c' = (if http_get_page e (clock c) url = FetchError then visited_urls c
                             else finsert url (visited_urls c))
     else page_gets c' = page_gets c \<and> visited_urls c' = visited_urls c"
  using assms
proof (cases rule: crawl_body_elims)
  case seen
  with assms(2) show ?thesis by (simp add: final_def)
next
  case (failed c1)
  with assms(2) show ?thesis
    by (auto simp: final_def download_page_def Let_def split: if_splits page_response.splits)
next
  case (text_raised soup c1 er c2)
  with assms(2) download_page_Some [OF text_raised(2)]
    extract_text_fields [OF text_raised(3) refl]
  show ?thesis by (simp add: final_def)
next
  case (images_raised soup c1 tx soup1 c2 er c3)
  with assms(2) download_page_Some [OF images_raised(2)]
    extract_text_fields [OF images_raised(3) refl] extract_images_fields_Inl [OF images_raised(4)]
  show ?thesis by (simp add: final_def crawl_fields_def)
next
  case (deep soup c1 tx soup1 c2 n c3)
  with assms(2) download_page_Some [OF deep(2)]
    extract_text_fields [OF deep(3) refl] extract_images_fields_Inr [OF deep(4)]
  show ?thesis by (simp add: final_def crawl_fields_def)
next
  case (links_raised soup c1 tx soup1 c2 n c3 er)
  with assms(2) download_page_Some [OF links_raised(2)]
    extract_text_fields [OF links_raised(3) refl] extract_images_fields_Inr [OF links_raised(4)]
  show ?thesis by (simp add: final_def crawl_fields_def)
next
  case (linked soup c1 tx soup1 c2 n c3 links)
  with assms(2) download_page_Some [OF linked(2)]
    extract_text_fields [OF linked(3) refl] extract_images_fields_Inr [OF linked(4)]
  show ?thesis by (simp add: final_def crawl_fields_def)
qed

lemma append_links_eq:
  "append_links c depth links q =
     q @ map (\<lambda>l. (l, depth + 1)) (filter (\<lambda>l. l |\<notin>| visited_urls c) links)"
  by (induction links arbitrary: q) auto

lemma links_of_sound:
  assumes "links_of e base hrefs = Inr links" "l \<in> set links"
  shows "http_prefix l \<and> url_netloc e l = url_netloc e base \<and> url_netloc e base \<noteq> None"
  using assms
proof (induction hrefs arbitrary: links)
  case Nil
  then show ?case by simp
next
  case (Cons href hrefs)
  then show ?case
    by (auto split: option.splits if_splits sum.splits)
qed

lemma extract_links_sound:
  assumes "extract_links e soup page_url = Inr links" "l \<in> set links"
  shows "http_prefix l \<and> url_netloc e l = url_netloc e page_url"
  using assms links_of_sound unfolding extract_links_def by blast

lemma crawl_body_queue:
  assumes "crawl_body e (c, (url, depth) # q, st) = r" "final r = (c', q', st')"
  shows "q' = q \<or> (depth < max_depth c \<and>
           (\<exists>soup1 links. extract_links e soup1 url = Inr links \<and> q' = append_links c' depth links q))"
  using assms
proof (cases rule: crawl_body_elims)
  case (linked soup c1 tx soup1 c2 n c3 links)
  with assms(2) download_page_fields [OF linked(2)]
    extract_text_fields [OF linked(3) refl] extract_images_fields_Inr [OF linked(4)]
  show ?thesis by (auto simp add: final_def crawl_fields_def)
qed (use assms(2) in \<open>simp_all add: final_def\<close>)

lemma crawl_body_frontier:
  assumes "final (crawl_body e (c, (url, depth) # q, st)) = (c', q', st')"
  shows "\<exists>new. q' = q @ map (\<lambda>l. (l, depth + 1)) new \<and>
     (\<forall>l \<in> set new. l |\<notin>| visited_urls c' \<and> http_prefix l \<and> url_netloc e l = url_netloc e url)"
proof -
  from crawl_body_queue [OF refl assms]
  show ?thesis
  proof
    assume "q' = q"
    then have "q' = q @ map (\<lambda>l. (l, depth + 1)) [] \<and>
      (\<forall>l \<in> set []. l |\<notin>| visited_urls c' \<and> http_prefix l \<and> url_netloc e l = url_netloc e url)"
      by simp
    then show ?thesis by blast
  next
    assume "depth < max_depth c \<and>
      (\<exists>soup1 links. extract_links e soup1 url = Inr links \<and> q' = append_links c' depth links q)"
    then obtain soup1 links where links: "extract_links e soup1 url = Inr links"
      and q': "q' = append_links c' depth links q"
      by blast
    define new where "new = filter (\<lambda>l. l |\<notin>| visited_urls c') links"
    have "q' = q @ map (\<lambda>l. (l, depth + 1)) new"
      using q' by (simp add: append_links_eq new_def)
    moreover have "\<forall>l \<in> set new. l |\<notin>| visited_urls c' \<and> http_prefix l \<and> url_netloc e l = url_netloc e url"
      using extract_links_sound [OF links] by (simp add: new_def)
    ultimately show ?thesis by blast
  qed
qed

lemma crawl_body_grows:
  assumes "final (crawl_body e (c, (url, depth) # q, st)) = (c', q', st')"
  shows "visited_urls c |\<subseteq>| visited_urls c' \<and>
     (visited_urls c' \<noteq> visited_urls c \<longrightarrow>
        fcard (visited_urls c') = Suc (fcard (visited_urls c)) \<and>
        int (fcard (visited_urls c')) \<le> max_pages c)"
  using crawl_body_log [OF refl assms]
  by (auto simp: fcard_finsert_disjoint split: if_splits)

lemma crawl_body_parsed_errors:
  assumes "download_page e c url depth = (Some soup, c1)" "url |\<notin>| visited_urls c"
  shows "errors (snd (snd (final (crawl_body e (c, (url, depth) # q, st))))) = errors st"
proof -
  have "errors (snd (snd (final r))) = errors st"
    if "crawl_body e (c, (url, depth) # q, st) = r" for r
    using that assms by (cases rule: crawl_body_elims) (simp_all add: final_def)
  then show ?thesis by simp
qed

lemma crawl_body_parsed_pages:
  assumes "download_page e c url depth = (Some soup, c1)" "url |\<notin>| visited_urls c"
  shows "pages_crawled (snd (snd (final (crawl_body e (c, (url, depth) # q, st))))) = pages_crawled st + 1"
proof -
  have "pages_crawled (snd (snd (final r))) = pages_crawled st + 1"
    if "crawl_body e (c, (url, depth) # q, st) = r" for r
    using that assms by (cases rule: crawl_body_elims) (simp_all add: final_def)
  then show ?thesis by simp
qed

lemma extract_text_saves:
  assumes "extract_text e c soup url = Inr (tx, soup1, c')"
  shows "tx = page_text e soup \<and> text_files c' = text_files c @ [text_file e url soup (clock c)]"
  using assms by (auto simp: extract_text_def page_text_def text_file_def Let_def split: if_splits)

lemma crawl_body_stats:
  assumes "crawl_body e (c, (url, depth) # q, st) = Inr (c', q', st')"
  shows "if url |\<in>| visited_urls c then st' = st \<and> text_files c' = text_files c
     else if int (fcard (visited_urls c)) < max_pages c \<and> depth \<le> max_depth c \<and>
             is_parsed (http_get_page e (clock c) url)
     then errors st' = errors st \<and> pages_crawled st' = pages_crawled st + 1 \<and>
          texts_saved st' = texts_saved st + 1 \<and> (\<exists>f. text_files c' = text_files c @ [f])
     else st' = st\<lparr>errors := errors st + 1\<rparr> \<and> text_files c' = text_files c"
  using assms
proof (cases rule: crawl_body_elims)
  case seen
  then show ?thesis by simp
next
  case (failed c1)
  then show ?thesis
    by (auto simp: download_page_def Let_def is_parsed_def split: if_splits page_response.splits)
next
  case (deep soup c1 tx soup1 c2 n c3)
  with download_page_Some [OF deep(2)] download_page_fields [OF deep(2)]
    extract_text_Inr [OF deep(3)] extract_images_fields_Inr [OF deep(4)]
  show ?thesis by (auto simp: crawl_fields_def is_parsed_def)
next
  case (linked soup c1 tx soup1 c2 n c3 links)
  with download_page_Some [OF linked(2)] download_page_fields [OF linked(2)]
    extract_text_Inr [OF linked(3)] extract_images_fields_Inr [OF linked(4)]
  show ?thesis by (auto simp: crawl_fields_def is_parsed_def)
qed simp_all

lemma crawl_body_text_file:
  assumes "crawl_body e (c, (url, depth) # q, st) = Inr (c', q', st')"
  shows "if url |\<notin>| visited_urls c \<and> int (fcard (visited_urls c)) < max_pages c \<and> depth \<le> max_depth c \<and>
            is_parsed (http_get_page e (clock c) url)
     then \<exists>soup. http_get_page e (clock c) url = Parsed soup \<and>
            text_files c' = text_files c @ [text_file e url soup (Suc (clock c))]
     else text_files c' = text_files c"
  using assms
proof (cases rule: crawl_body_elims)
  case seen
  then show ?thesis by simp
next
  case (failed c1)
  then show ?thesis
    by (auto simp: download_page_def Let_def is_parsed_def split: if_splits page_response.splits)
next
  case (deep soup c1 tx soup1 c2 n c3)
  with download_page_Some [OF deep(2)] download_page_fields [OF deep(2)]
    extract_text_saves [OF deep(3)] extract_images_fields_Inr [OF deep(4)]
  show ?thesis by (auto simp: crawl_fields_def is_parsed_def)
next
  case (linked soup c1 tx soup1 c2 n c3 links)
  with download_page_Some [OF linked(2)] download_page_fields [OF linked(2)]
    extract_text_saves [OF linked(3)] extract_images_fields_Inr [OF linked(4)]
  show ?thesis by (auto simp: crawl_fields_def is_parsed_def)
qed simp_all

lemma text_written:
  assumes "url |\<notin>| visited_urls c0" "download_page e c0 url depth = (Some soup, c1)"
    "\<not> write_fails e (clock c1)"
  shows "text_files (fst (final (crawl_body e (c0, (url, depth) # q, st0))))
     = text_files c0 @ [text_file e url soup (clock c1)]"
proof -
  have tf: "text_files c1 = text_files c0"
    using download_page_fields [OF assms(2)] by simp
  have "text_files (fst (final r)) = text_files c0 @ [text_file e url soup (clock c1)]"
    if "crawl_body e (c0, (url, depth) # q, st0) = r" for r
    using that
  proof (cases rule: crawl_body_elims)
    case seen
    with assms(1) show ?thesis by simp
  next
    case (failed c1')
    with assms(2) show ?thesis by simp
  next
    case (text_raised soup' c1' er c2)
    with assms(2,3) show ?thesis by (simp add: extract_text_def Let_def)
  next
    case (images_raised soup' c1' tx soup1 c2 er c3)
    with assms(2) extract_text_saves [OF images_raised(3)] extract_images_fields_Inl [OF images_raised(4)] tf
    show ?thesis by (simp add: final_def crawl_fields_def)
  next
    case (deep soup' c1' tx soup1 c2 n c3)
    with assms(2) extract_text_saves [OF deep(3)] extract_images_fields_Inr [OF deep(4)] tf
    show ?thesis by (simp add: final_def crawl_fields_def)
  next
    case (links_raised soup' c1' tx soup1 c2 n c3 er)
    with assms(2) extract_text_saves [OF links_raised(3)] extract_images_fields_Inr [OF links_raised(4)] tf
    show ?thesis by (simp add: final_def crawl_fields_def)
  next
    case (linked soup' c1' tx soup1 c2 n c3 links)
    with assms(2) extract_text_saves [OF linked(3)] extract_images_fields_Inr [OF linked(4)] tf
    show ?thesis by (simp add: final_def crawl_fields_def)
  qed
  then show ?thesis by simp
qed

lemma duplicate_rejected:
  assumes "http_get_image e (clock c) img_url = ImageOk content_type img_data"
    "get_image_hash e img_data |\<in>| image_hashes c"
  shows "fst (download_image e c img_url) = False \<and>
     image_files (snd (download_image e c img_url)) = image_files c \<and>
     image_hashes (snd (download_image e c img_url)) = image_hashes c"
  using assms by (simp add: download_image_def Let_def)

lemma first_image_written:
  assumes "download_image e c img_url = (True, c')"
  shows "\<exists>content_type img_data name.
     http_get_image e (clock c) img_url = ImageOk content_type img_data \<and>
     get_image_hash e img_data |\<notin>| image_hashes c \<and>
     image_hashes c' = finsert (get_image_hash e img_data) (image_hashes c) \<and>
     image_files c' = image_files c @ [(name, img_data)]"
  using assms
  by (auto simp: download_image_def Let_def split: image_response.splits if_splits option.splits)

section \<open>The loop terminates\<close>

text \<open>
  Each iteration that completes either adds a URL to the visited set, which has fewer than
  \<^verbatim>\<open>max_pages\<close> elements while the loop runs, or leaves the visited set as it is and
  shortens the queue.
\<close>

lemma crawl_body_decreases:
  assumes "loop_guard s" "crawl_body e s = Inr s'"
  shows "(s', s) \<in> measures [\<lambda>(c, q, st). nat (max_pages c - int (fcard (visited_urls c))),
                              \<lambda>(c, q, st). length q]"
proof -
  obtain c q st where s: "s = (c, q, st)" by (cases s)
  obtain c' q' st' where s': "s' = (c', q', st')" by (cases s')
  from assms(1) s obtain url depth q1 where q: "q = (url, depth) # q1"
    and lt: "int (fcard (visited_urls c)) < max_pages c"
    by (cases q) (auto simp: loop_guard_def)
  from assms(2) s s' q have "final (crawl_body e (c, (url, depth) # q1, st)) = (c', q', st')"
    by (simp add: final_def)
  from crawl_body_visited [OF refl this]
  have mp: "max_pages c' = max_pages c"
    and vis: "(visited_urls c' = visited_urls c \<and> q' = q1) \<or>
         (url |\<notin>| visited_urls c \<and> visited_urls c' = finsert url (visited_urls c))"
    by simp_all
  from vis show ?thesis
  proof
    assume "visited_urls c' = visited_urls c \<and> q' = q1"
    with mp s s' q show ?thesis by simp
  next
    assume "url |\<notin>| visited_urls c \<and> visited_urls c' = finsert url (visited_urls c)"
    then have "fcard (visited_urls c') = Suc (fcard (visited_urls c))"
      by (simp add: fcard_finsert_disjoint)
    with mp lt s s' show ?thesis by simp
  qed
qed

termination crawl_loop
proof (relation "inv_image (measures [\<lambda>(c, q, st). nat (max_pages c - int (fcard (visited_urls c))),
                              \<lambda>(c, q, st). length q]) snd")
  show "wf (inv_image (measures [\<lambda>(c, q, st). nat (max_pages c - int (fcard (visited_urls c))),
                              \<lambda>(c, q, st). length q]) snd)"
    by simp
next
  fix e s s1
  assume "loop_guard s" "crawl_body e s = Inr s1"
  then show "((e, s1), (e, s)) \<in> inv_image (measures [\<lambda>(c, q, st). nat (max_pages c - int (fcard (visited_urls c))),
                              \<lambda>(c, q, st). length q]) snd"
    using crawl_body_decreases by simp
qed

declare crawl_loop.simps [simp del]

lemma crawl_fuel_terminates: "\<exists>n. crawl_fuel n e s = Some (crawl_loop e s)"
proof (induction e s rule: crawl_loop.induct)
  case (1 e s)
  show ?case
  proof (cases "loop_guard s")
    case False
    then have "crawl_fuel (Suc 0) e s = Some (crawl_loop e s)"
      by (simp add: crawl_loop.simps)
    then show ?thesis ..
  next
    case True
    show ?thesis
    proof (cases "crawl_body e s")
      case (Inl raised)
      with True have "crawl_fuel (Suc 0) e s = Some (crawl_loop e s)"
        by (simp add: crawl_loop.simps)
      then show ?thesis ..
    next
      case (Inr s1)
      from "1.IH" [OF True Inr] obtain n where "crawl_fuel n e s1 = Some (crawl_loop e s1)" ..
      with True Inr have "crawl_fuel (Suc n) e s = Some (crawl_loop e s)"
        by (simp add: crawl_loop.simps)
      then show ?thesis ..
    qed
  qed
qed

section \<open>Invariants of the loop\<close>

lemma crawl_loop_invariant:
  assumes "\<And>s. P s \<Longrightarrow> loop_guard s \<Longrightarrow> P (final (crawl_body e s))" and "P s"
  shows "P (final (crawl_loop e s))"
  using assms
proof (induction e s rule: crawl_loop.induct)
  case (1 e s)
  note step = "1.prems"(1) and Ps = "1.prems"(2)
  show ?case
  proof (cases "loop_guard s")
    case False
    with Ps show ?thesis by (simp add: crawl_loop.simps final_def)
  next
    case True
    show ?thesis
    proof (cases "crawl_body e s")
      case (Inl raised)
      have "final (crawl_body e s) = snd raised" using Inl by (simp add: final_def)
      with step [OF Ps True] have "P (snd raised)" by simp
      with True Inl show ?thesis by (simp add: crawl_loop.simps final_def)
    next
      case (Inr s1)
      have "final (crawl_body e s) = s1" using Inr by (simp add: final_def)
      with step [OF Ps True] have "P s1" by simp
      with "1.IH" [OF True Inr step] True Inr show ?thesis by (simp add: crawl_loop.simps)
    qed
  qed
qed

lemma crawl_loop_rule:
  assumes "\<And>s s1. I s \<Longrightarrow> loop_guard s \<Longrightarrow> crawl_body e s = Inr s1 \<Longrightarrow> I s1"
    and "\<And>s x. I s \<Longrightarrow> loop_guard s \<Longrightarrow> crawl_body e s = Inl x \<Longrightarrow> R x"
    and "I s"
  shows "case crawl_loop e s of Inl x \<Rightarrow> R x | Inr s1 \<Rightarrow> I s1 \<and> \<not> loop_guard s1"
  using assms
proof (induction e s rule: crawl_loop.induct)
  case (1 e s)
  note step = "1.prems"(1) and raised = "1.prems"(2) and Is = "1.prems"(3)
  show ?case
  proof (cases "loop_guard s")
    case False
    with Is show ?thesis by (simp add: crawl_loop.simps)
  next
    case True
    show ?thesis
    proof (cases "crawl_body e s")
      case (Inl x)
      with True raised [OF Is True Inl] show ?thesis by (simp add: crawl_loop.simps)
    next
      case (Inr s1)
      have "I s1" using step [OF Is True Inr] .
      have "case crawl_loop e s1 of Inl x \<Rightarrow> R x | Inr s2 \<Rightarrow> I s2 \<and> \<not> loop_guard s2"
      proof (rule "1.IH" [OF True Inr])
        fix s s1 assume "I s" "loop_guard s" "crawl_body e s = Inr s1"
        then show "I s1" by (rule step)
      next
        fix s x assume "I s" "loop_guard s" "crawl_body e s = Inl x"
        then show "R x" by (rule raised)
      next
        show "I s1" by fact
      qed
      with True Inr show ?thesis by (simp add: crawl_loop.simps)
    qed
  qed
qed

lemma crawl_loop_returns:
  assumes "\<And>s s1. I s \<Longrightarrow> loop_guard s \<Longrightarrow> crawl_body e s = Inr s1 \<Longrightarrow> I s1"
    and "I s" and "crawl_loop e s = Inr s1"
  shows "I s1"
  using crawl_loop_rule [where I = I and R = "\<lambda>x. True" and e = e and s = s] assms
  by simp

lemma crawl_Inr:
  "crawl e c = Inr (st, c') \<longleftrightarrow> (\<exists>q. crawl_loop e (start c) = Inr (c', q, st))"
  by (auto simp: crawl_def split: sum.splits)

lemma no_refetch_snoc:
  "no_refetch (gs @ [g]) \<longleftrightarrow>
     no_refetch gs \<and> fst g \<notin> set (map fst (filter (\<lambda>g. snd (snd g) \<noteq> FetchError) gs))"
  by (induction gs) auto

lemma fetch_inv_step:
  assumes "fetch_inv s" "loop_guard s"
  shows "fetch_inv (final (crawl_body e s))"
proof -
  obtain c q st where s: "s = (c, q, st)" by (cases s)
  from assms(2) s obtain u d q1 where q: "q = (u, d) # q1"
    by (cases q) (auto simp: loop_guard_def)
  obtain c' q' st' where f: "final (crawl_body e (c, (u, d) # q1, st)) = (c', q', st')"
    by (cases "final (crawl_body e (c, (u, d) # q1, st))")
  from crawl_body_visited [OF refl f] have mp: "max_pages c' = max_pages c" by simp
  from assms(1) s have inv: "set (fetched_urls c) = fset (visited_urls c)" "distinct (fetched_urls c)"
    "no_refetch (page_gets c)" "int (fcard (visited_urls c)) \<le> max 0 (max_pages c)"
    by (simp_all add: fetch_inv_def)
  show ?thesis
  proof (cases "u |\<notin>| visited_urls c \<and> int (fcard (visited_urls c)) < max_pages c \<and> d \<le> max_depth c")
    case False
    with crawl_body_log [OF refl f] have "page_gets c' = page_gets c" "visited_urls c' = visited_urls c"
      by (simp_all split: if_splits)
    with inv mp s q f show ?thesis by (simp add: fetch_inv_def fetched_urls_def)
  next
    case True
    define r where "r = http_get_page e (clock c) u"
    from True crawl_body_log [OF refl f]
    have pg: "page_gets c' = page_gets c @ [(u, d, r)]"
      and vis: "visited_urls c' = (if r = FetchError then visited_urls c else finsert u (visited_urls c))"
      by (simp_all add: r_def)
    from True inv(1) have notin: "u \<notin> set (fetched_urls c)" by simp
    have card: "int (fcard (visited_urls c')) \<le> max 0 (max_pages c')"
      using True inv(4) vis mp by (simp add: fcard_finsert_disjoint)
    have "no_refetch (page_gets c')"
      using pg inv(3) notin by (simp add: no_refetch_snoc fetched_urls_def)
    moreover have "set (fetched_urls c') = fset (visited_urls c')"
      using pg vis inv(1) by (auto simp: fetched_urls_def)
    moreover have "distinct (fetched_urls c')"
      using pg inv(2) notin by (auto simp: fetched_urls_def)
    ultimately show ?thesis using card s q f by (simp add: fetch_inv_def)
  qed
qed

lemma fetch_inv_final: "fetch_inv (final (crawl_loop e (start (new_crawler url mp md))))"
proof (rule crawl_loop_invariant)
  show "fetch_inv (start (new_crawler url mp md))"
    by (simp add: fetch_inv_def start_def new_crawler_def fetched_urls_def fcard_fempty)
qed (rule fetch_inv_step)

lemma reachable_frontier:
  assumes "reachable e (start c0) s"
  shows "\<forall>x \<in> set (fst (snd s)). same_origin e (base_url c0) (fst x)"
  using assms
proof (induction rule: reachable.induct)
  case reachable_start
  show ?case by (simp add: start_def same_origin_def)
next
  case (reachable_step s s1)
  obtain c q st where s: "s = (c, q, st)" by (cases s)
  obtain c' q' st' where s1: "s1 = (c', q', st')" by (cases s1)
  from reachable_step.hyps(2) s obtain u d q1 where q: "q = (u, d) # q1"
    by (cases q) (auto simp: loop_guard_def)
  from reachable_step.IH s q have u: "same_origin e (base_url c0) u"
    and rest: "\<forall>x \<in> set q1. same_origin e (base_url c0) (fst x)"
    by simp_all
  from reachable_step.hyps(3) s s1 q
  have f: "final (crawl_body e (c, (u, d) # q1, st)) = (c', q', st')"
    by (simp add: final_def)
  from crawl_body_queue [OF refl f]
  show ?case
  proof
    assume "q' = q1"
    with rest s1 show ?thesis by simp
  next
    assume "d < max_depth c \<and>
      (\<exists>soup1 links. extract_links e soup1 u = Inr links \<and> q' = append_links c' d links q1)"
    then obtain soup1 links where links: "extract_links e soup1 u = Inr links"
      and q': "q' = append_links c' d links q1"
      by blast
    have "same_origin e (base_url c0) l" if "l \<in> set links" for l
    proof -
      from extract_links_sound [OF links that]
      have "http_prefix l" "url_netloc e l = url_netloc e u" by simp_all
      moreover from links_of_sound [of e u _ links l] links that
      have "url_netloc e u \<noteq> None" unfolding extract_links_def by blast
      ultimately show ?thesis using u by (auto simp: same_origin_def)
    qed
    with rest q' s1 show ?thesis by (auto simp: append_links_eq)
  qed
qed

lemma text_inv_step:
  assumes "text_inv s" "loop_guard s" "crawl_body e s = Inr s1"
  shows "text_inv s1"
proof -
  obtain c q st where s: "s = (c, q, st)" by (cases s)
  obtain c' q' st' where s1: "s1 = (c', q', st')" by (cases s1)
  from assms(2) s obtain u d q1 where q: "q = (u, d) # q1"
    by (cases q) (auto simp: loop_guard_def)
  from assms(3) s s1 q have body: "crawl_body e (c, (u, d) # q1, st) = Inr (c', q', st')" by simp
  then have f: "final (crawl_body e (c, (u, d) # q1, st)) = (c', q', st')" by (simp add: final_def)
  from crawl_body_stats [OF body] crawl_body_log [OF refl f] assms(1) s
  show ?thesis unfolding s1
    by (auto simp: text_inv_def parsed_gets_def is_parsed_def split: if_splits)
qed

lemma error_inv_step:
  assumes "error_inv s" "loop_guard s" "crawl_body e s = Inr s1"
  shows "error_inv s1"
proof -
  obtain c q st where s: "s = (c, q, st)" by (cases s)
  obtain c' q' st' where s1: "s1 = (c', q', st')" by (cases s1)
  from assms(2) s obtain u d q1 where q: "q = (u, d) # q1"
    and lt: "int (fcard (visited_urls c)) < max_pages c"
    by (cases q) (auto simp: loop_guard_def)
  from assms(1) s q have d: "d \<le> max_depth c" and rest: "\<forall>x \<in> set q1. snd x \<le> max_depth c"
    and er: "errors st = int (length (failed_gets c))"
    by (simp_all add: error_inv_def)
  from assms(3) s s1 q have body: "crawl_body e (c, (u, d) # q1, st) = Inr (c', q', st')" by simp
  then have f: "final (crawl_body e (c, (u, d) # q1, st)) = (c', q', st')" by (simp add: final_def)
  from crawl_body_visited [OF refl f] have md: "max_depth c' = max_depth c" by simp
  have "\<forall>x \<in> set q'. snd x \<le> max_depth c"
    using crawl_body_queue [OF refl f] rest by (fastforce simp: append_links_eq)
  moreover have "errors st' = int (length (failed_gets c'))"
    using crawl_body_stats [OF body] crawl_body_log [OF refl f] er lt d
    by (auto simp: failed_gets_def split: if_splits)
  ultimately show ?thesis unfolding s1 using md by (simp add: error_inv_def)
qed

lemma failed_fetch_iteration:
  assumes "url |\<notin>| visited_urls c" "\<not> is_parsed (http_get_page e (clock c) url)"
  shows "\<exists>c'. crawl_body e (c, (url, depth) # q, st) = Inr (c', q, st\<lparr>errors := errors st + 1\<rparr>) \<and>
     (loop_guard (c, (url, depth) # q, st) \<longrightarrow>
        crawl_loop e (c, (url, depth) # q, st) = crawl_loop e (c', q, st\<lparr>errors := errors st + 1\<rparr>))"
proof -
  from assms have "\<exists>c'. crawl_body e (c, (url, depth) # q, st) = Inr (c', q, st\<lparr>errors := errors st + 1\<rparr>)"
    by (auto simp: crawl_body_def download_page_def Let_def is_parsed_def split: page_response.splits)
  then obtain c' where
    body: "crawl_body e (c, (url, depth) # q, st) = Inr (c', q, st\<lparr>errors := errors st + 1\<rparr>)"
    by blast
  then have "loop_guard (c, (url, depth) # q, st) \<longrightarrow>
        crawl_loop e (c, (url, depth) # q, st) = crawl_loop e (c', q, st\<lparr>errors := errors st + 1\<rparr>)"
    by (subst crawl_loop.simps) simp
  with body show ?thesis by blast
qed

lemma failed_image_fetch:
  assumes "http_get_image e (clock c) img_url = ImageError"
  shows "download_image e c img_url
     = (False, c\<lparr>clock := Suc (clock c), image_gets := image_gets c @ [(img_url, ImageError)]\<rparr>)"
  using assms by (simp add: download_image_def Let_def)

lemma errors_count:
  assumes "0 \<le> md" "crawl e (new_crawler url mp md) = Inr (st, c)"
  shows "errors st = int (length (failed_gets c))"
proof -
  from assms(2) obtain q where run: "crawl_loop e (start (new_crawler url mp md)) = Inr (c, q, st)"
    by (auto simp: crawl_Inr)
  have "error_inv (c, q, st)"
  proof (rule crawl_loop_returns [where I = error_inv, OF _ _ run])
    show "error_inv (start (new_crawler url mp md))"
      using assms(1) by (simp add: error_inv_def start_def new_crawler_def zero_stats_def failed_gets_def)
  qed (rule error_inv_step)
  then show ?thesis by (simp add: error_inv_def)
qed

lemma texts_count:
  assumes "crawl e (new_crawler seed mp md) = Inr (st, c)"
  shows "texts_saved st = pages_crawled st \<and> pages_crawled st = int (length (parsed_gets c)) \<and>
     int (length (text_files c)) = texts_saved st"
proof -
  from assms obtain q where run: "crawl_loop e (start (new_crawler seed mp md)) = Inr (c, q, st)"
    by (auto simp: crawl_Inr)
  have "text_inv (c, q, st)"
  proof (rule crawl_loop_returns [where I = text_inv, OF _ _ run])
    show "text_inv (start (new_crawler seed mp md))"
      by (simp add: text_inv_def start_def new_crawler_def zero_stats_def parsed_gets_def)
  qed (rule text_inv_step)
  then show ?thesis by (simp add: text_inv_def)
qed

lemma text_write_fails:
  assumes "url |\<notin>| visited_urls c0" "download_page e c0 url depth = (Some soup, c1)"
    "write_fails e (clock c1)"
  shows "crawl_body e (c0, (url, depth) # q, st0)
       = Inl (OSError, c1\<lparr>clock := Suc (clock c1)\<rparr>, q, st0\<lparr>pages_crawled := pages_crawled st0 + 1\<rparr>)
     \<and> (loop_guard (c0, (url, depth) # q, st0) \<longrightarrow>
          crawl_loop e (c0, (url, depth) # q, st0)
            = Inl (OSError, c1\<lparr>clock := Suc (clock c1)\<rparr>, q, st0\<lparr>pages_crawled := pages_crawled st0 + 1\<rparr>))"
proof -
  from assms(3) have "extract_text e c1 soup url = Inl (OSError, c1\<lparr>clock := Suc (clock c1)\<rparr>)"
    by (simp add: extract_text_def Let_def)
  with assms(1,2) have body: "crawl_body e (c0, (url, depth) # q, st0)
       = Inl (OSError, c1\<lparr>clock := Suc (clock c1)\<rparr>, q, st0\<lparr>pages_crawled := pages_crawled st0 + 1\<rparr>)"
    by (simp add: crawl_body_def Let_def)
  then have "loop_guard (c0, (url, depth) # q, st0) \<longrightarrow>
          crawl_loop e (c0, (url, depth) # q, st0)
            = Inl (OSError, c1\<lparr>clock := Suc (clock c1)\<rparr>, q, st0\<lparr>pages_crawled := pages_crawled st0 + 1\<rparr>)"
    by (subst crawl_loop.simps) simp
  with body show ?thesis by blast
qed

lemma saved_inv_step:
  assumes "saved_inv e s" "loop_guard s" "crawl_body e s = Inr s1"
  shows "saved_inv e s1"
proof -
  obtain c q st where s: "s = (c, q, st)" by (cases s)
  obtain c' q' st' where s1: "s1 = (c', q', st')" by (cases s1)
  from assms(2) s obtain u d q1 where q: "q = (u, d) # q1"
    by (cases q) (auto simp: loop_guard_def)
  from assms(3) s s1 q have body: "crawl_body e (c, (u, d) # q1, st) = Inr (c', q', st')" by simp
  then have f: "final (crawl_body e (c, (u, d) # q1, st)) = (c', q', st')" by (simp add: final_def)
  from assms(1) s have inv: "list_all2 (saved_as e) (parsed_gets c) (text_files c)"
    by (simp add: saved_inv_def)
  show ?thesis
  proof (cases "u |\<notin>| visited_urls c \<and> int (fcard (visited_urls c)) < max_pages c \<and> d \<le> max_depth c")
    case False
    with crawl_body_log [OF refl f] crawl_body_text_file [OF body]
    have "page_gets c' = page_gets c" "text_files c' = text_files c"
      by (auto split: if_splits)
    with inv show ?thesis unfolding s1 by (simp add: saved_inv_def parsed_gets_def)
  next
    case True
    with crawl_body_log [OF refl f]
    have pg: "page_gets c' = page_gets c @ [(u, d, http_get_page e (clock c) u)]" by simp
    show ?thesis
    proof (cases "is_parsed (http_get_page e (clock c) u)")
      case False
      with True crawl_body_text_file [OF body] have "text_files c' = text_files c" by simp
      with inv pg False show ?thesis unfolding s1 by (simp add: saved_inv_def parsed_gets_def)
    next
      case parsed: True
      with True crawl_body_text_file [OF body] obtain soup where
        r: "http_get_page e (clock c) u = Parsed soup"
        and tf: "text_files c' = text_files c @ [text_file e u soup (Suc (clock c))]"
        by auto
      have "saved_as e (u, d, Parsed soup) (text_file e u soup (Suc (clock c)))"
        by (auto simp: saved_as_def)
      with inv pg r tf parsed show ?thesis unfolding s1
        by (simp add: saved_inv_def parsed_gets_def list_all2_appendI)
    qed
  qed
qed

lemma texts_saved_as:
  assumes "crawl e (new_crawler seed mp md) = Inr (st, c)"
  shows "list_all2 (saved_as e) (parsed_gets c) (text_files c)"
proof -
  from assms obtain q where run: "crawl_loop e (start (new_crawler seed mp md)) = Inr (c, q, st)"
    by (auto simp: crawl_Inr)
  have "saved_inv e (c, q, st)"
  proof (rule crawl_loop_returns [where I = "saved_inv e", OF _ _ run])
    show "saved_inv e (start (new_crawler seed mp md))"
      by (simp add: saved_inv_def start_def new_crawler_def parsed_gets_def)
  qed (rule saved_inv_step)
  then show ?thesis by (simp add: saved_inv_def)
qed

lemma failed_fetch_raw:
  assumes "url |\<notin>| visited_urls c"
    and "session_get e (clock c) url = Timeout \<or> session_get e (clock c) url = ConnectionFailed \<or>
         (\<exists>parsed. session_get e (clock c) url = Responded status parsed \<and>
            (400 \<le> status \<and> status < 600 \<or> parsed = None))"
  shows "\<exists>c'. crawl_body e (c, (url, depth) # q, st) = Inr (c', q, st\<lparr>errors := errors st + 1\<rparr>) \<and>
     (loop_guard (c, (url, depth) # q, st) \<longrightarrow>
        crawl_loop e (c, (url, depth) # q, st) = crawl_loop e (c', q, st\<lparr>errors := errors st + 1\<rparr>))"
proof -
  from assms(2) have "\<not> is_parsed (http_get_page e (clock c) url)"
    by (auto simp: http_get_page_def is_parsed_def raise_for_status_def split: if_splits)
  with assms(1) show ?thesis by (rule failed_fetch_iteration)
qed

lemma other_status_counted:
  assumes "url |\<notin>| visited_urls c" "int (fcard (visited_urls c)) < max_pages c" "depth \<le> max_depth c"
    "session_get e (clock c) url = Responded status (Some soup)" "\<not> (400 \<le> status \<and> status < 600)"
  shows "errors (snd (snd (final (crawl_body e (c, (url, depth) # q, st))))) = errors st \<and>
     pages_crawled (snd (snd (final (crawl_body e (c, (url, depth) # q, st))))) = pages_crawled st + 1"
proof -
  from assms have "fst (download_page e c url depth) = Some soup"
    by (simp add: download_page_def http_get_page_def raise_for_status_def Let_def)
  then have "download_page e c url depth = (Some soup, snd (download_page e c url depth))"
    by (metis prod.collapse)
  from crawl_body_parsed_errors [OF this assms(1)] crawl_body_parsed_pages [OF this assms(1)]
  show ?thesis by simp
qed

section \<open>Image batches without interleaving\<close>

lemma download_image_dedup:
  assumes "dedup_inv e c"
  shows "dedup_inv e (snd (download_image e c img_url))"
proof (cases "fst (download_image e c img_url)")
  case True
  then have "download_image e c img_url = (True, snd (download_image e c img_url))"
    by (metis prod.collapse)
  from first_image_written [OF this] obtain img_data name where
    new: "get_image_hash e img_data |\<notin>| image_hashes c"
    and hashes: "image_hashes (snd (download_image e c img_url))
       = finsert (get_image_hash e img_data) (image_hashes c)"
    and files: "image_files (snd (download_image e c img_url)) = image_files c @ [(name, img_data)]"
    by blast
  from assms new have "get_image_hash e img_data \<notin> (\<lambda>f. get_image_hash e (snd f)) ` set (image_files c)"
    by (auto simp: dedup_inv_def)
  with assms hashes files show ?thesis
    by (auto simp: dedup_inv_def)
next
  case False
  have "image_files (snd (download_image e c img_url)) = image_files c \<and>
     image_hashes c |\<subseteq>| image_hashes (snd (download_image e c img_url))"
    using False
    by (auto simp: download_image_def Let_def split: image_response.splits if_splits option.splits)
  with assms show ?thesis
    by (auto simp: dedup_inv_def)
qed

lemma four_steps_alone:
  assumes "idle w" "dedup_inv e c"
    "worker_step e w c = (w1, c1)" "worker_step e w1 c1 = (w2, c2)"
    "worker_step e w2 c2 = (w3, c3)" "worker_step e w3 c3 = (w4, c4)"
  shows "\<not> unfinished w4 \<and> dedup_inv e c4"
proof (cases w)
  case (Pending u)
  with assms(3-6) have dl: "download_image e c u = (w4 = Finished True, c4)"
    by (simp add: download_image_def)
  from download_image_dedup [OF assms(2), of u] dl have "dedup_inv e c4" by simp
  moreover have "\<not> unfinished w4"
    using assms(3-6) Pending
    by (auto simp: unfinished_def Let_def split: image_response.splits if_splits option.splits)
  ultimately show ?thesis by simp
next
  case (Finished b)
  with assms show ?thesis by (auto simp: unfinished_def)
qed (use assms(1) in \<open>simp_all add: idle_def\<close>)

lemma pool_step_alone:
  assumes "i < length ws" "\<forall>j < i. \<not> unfinished (ws ! j)"
  shows "pool_step e i (ws, c) = (ws[i := fst (worker_step e (ws ! i) c)], snd (worker_step e (ws ! i) c))"
proof -
  have "filter unfinished (take i ws) = []"
    using assms by (auto simp: filter_empty_conv in_set_conv_nth)
  with assms(1) have "enabled ws i" by (simp add: enabled_def)
  then show ?thesis by (simp add: pool_step_def split: prod.splits)
qed

lemma drain_from:
  assumes "k \<le> length ws" "\<forall>j < k. \<not> unfinished (ws ! j)" "\<forall>j < length ws. k \<le> j \<longrightarrow> idle (ws ! j)"
    "dedup_inv e c"
    "run_schedule e (concat (map (\<lambda>i. [i, i, i, i]) [k..<length ws])) (ws, c) = (ws', c')"
  shows "dedup_inv e c'"
  using assms
proof (induction "length ws - k" arbitrary: k ws c)
  case 0
  then show ?case by simp
next
  case (Suc n)
  then have k: "k < length ws" by simp
  obtain w1 c1 where s1: "worker_step e (ws ! k) c = (w1, c1)" by (cases "worker_step e (ws ! k) c")
  obtain w2 c2 where s2: "worker_step e w1 c1 = (w2, c2)" by (cases "worker_step e w1 c1")
  obtain w3 c3 where s3: "worker_step e w2 c2 = (w3, c3)" by (cases "worker_step e w2 c2")
  obtain w4 c4 where s4: "worker_step e w3 c3 = (w4, c4)" by (cases "worker_step e w3 c3")
  from Suc.prems(3) k have "idle (ws ! k)" by simp
  from four_steps_alone [OF this Suc.prems(4) s1 s2 s3 s4]
  have fin: "\<not> unfinished w4" and inv: "dedup_inv e c4" by simp_all
  have before: "\<forall>j < k. \<not> unfinished (ws[k := w] ! j)" for w
    using Suc.prems(2) by simp
  have p1: "pool_step e k (ws, c) = (ws[k := w1], c1)"
    using pool_step_alone [OF k Suc.prems(2), of e c] s1 by simp
  have p2: "pool_step e k (ws[k := w1], c1) = (ws[k := w2], c2)"
    using pool_step_alone [of k "ws[k := w1]" e c1] k before s2 by simp
  have p3: "pool_step e k (ws[k := w2], c2) = (ws[k := w3], c3)"
    using pool_step_alone [of k "ws[k := w2]" e c2] k before s3 by simp
  have p4: "pool_step e k (ws[k := w3], c3) = (ws[k := w4], c4)"
    using pool_step_alone [of k "ws[k := w3]" e c3] k before s4 by simp
  have upt: "[k..<length ws] = k # [Suc k..<length ws]"
    using k by (simp add: upt_conv_Cons)
  from Suc.prems(5) have rest: "run_schedule e (concat (map (\<lambda>i. [i, i, i, i]) [Suc k..<length (ws[k := w4])]))
      (ws[k := w4], c4) = (ws', c')"
    by (simp add: upt p1 p2 p3 p4)
  show ?case
  proof (rule Suc.hyps(1) [OF _ _ _ _ inv rest])
    show "n = length (ws[k := w4]) - Suc k" using Suc.hyps(2) by simp
    show "Suc k \<le> length (ws[k := w4])" using k by simp
    show "\<forall>j < Suc k. \<not> unfinished (ws[k := w4] ! j)"
      using Suc.prems(2) fin k by (auto simp: less_Suc_eq nth_list_update)
    show "\<forall>j < length (ws[k := w4]). Suc k \<le> j \<longrightarrow> idle (ws[k := w4] ! j)"
      using Suc.prems(3) by (auto simp: nth_list_update)
  qed
qed

lemma extract_images_sequential:
  assumes "schedule e (clock c) = []" "dedup_inv e c"
  shows "dedup_inv e (case extract_images e c soup base of Inl x \<Rightarrow> snd x | Inr y \<Rightarrow> snd y)"
proof -
  obtain urls raised where u: "image_urls e base (soup_find_all ''img'' soup) = (urls, raised)"
    by (cases "image_urls e base (soup_find_all ''img'' soup)")
  obtain ws' c' where d: "drain e (map Pending urls, c) = (ws', c')"
    by (cases "drain e (map Pending urls, c)")
  then have "run_schedule e (concat (map (\<lambda>i. [i, i, i, i]) [0..<length (map Pending urls)]))
      (map Pending urls, c) = (ws', c')"
    by (simp add: drain_def)
  then have "dedup_inv e c'"
    by (rule drain_from [rotated 4]) (simp_all add: idle_def assms(2))
  with u d assms(1) show ?thesis
    by (simp add: extract_images_def)
qed

section \<open>The claims\<close>

subsection \<open>C1: when a URL enters the visited set\<close>

text \<open>
  C1 (as amended). When a (url, depth) pair is dequeued and passes the duplicate check,
  the url is not added to the visited set on dequeue: \<^verbatim>\<open>download_page\<close> adds it after
  the GET and the status check have succeeded. So after the iteration the url is in the
  visited set exactly when the request was issued (the page and depth limits allow it)
  and did not fail, and it is not in the visited set when the fetch failed.
\<close>

theorem visited_after_fetch:
  assumes "url |\<notin>| visited_urls c"
    and "final (crawl_body e (c, (url, depth) # q, st)) = (c', q', st')"
  shows "url |\<in>| visited_urls c' \<longleftrightarrow>
           int (fcard (visited_urls c)) < max_pages c \<and> depth \<le> max_depth c \<and>
           http_get_page e (clock c) url \<noteq> FetchError"
  using crawl_body_log [OF refl assms(2)] assms(1) by (auto split: if_splits)

theorem visited_after_fetch_witness:
  "''http://a.com/'' |\<notin>| visited_urls (new_crawler ''http://a.com/'' 3 2)
   \<and> visited_urls (fst (final (crawl_body example_env (start (new_crawler ''http://a.com/'' 3 2)))))
       = {|''http://a.com/''|}
   \<and> http_get_page example_env 0 ''http://a.com/'' \<noteq> FetchError"
proof -
  have a: "''http://a.com/'' |\<notin>| visited_urls (new_crawler ''http://a.com/'' 3 2)"
    by (simp add: new_crawler_def)
  obtain c' q' st' where f: "final (crawl_body example_env
      (new_crawler ''http://a.com/'' 3 2, (''http://a.com/'', 0) # [], zero_stats)) = (c', q', st')"
    by (cases "final (crawl_body example_env
      (new_crawler ''http://a.com/'' 3 2, (''http://a.com/'', 0) # [], zero_stats))")
  have b: "visited_urls (fst (final (crawl_body example_env (start (new_crawler ''http://a.com/'' 3 2)))))
       = {|''http://a.com/''|}"
    by code_simp
  have "http_get_page example_env (clock (new_crawler ''http://a.com/'' 3 2)) ''http://a.com/'' \<noteq> FetchError"
    using visited_after_fetch [OF a f] b f by (simp add: start_def new_crawler_def)
  then show ?thesis using a b by (simp add: new_crawler_def)
qed

text \<open>
  The claim as stated fails when the fetch fails: in the run on the example site the pair
  \<^verbatim>\<open>(/p1, 1)\<close> is dequeued while \<^verbatim>\<open>/p1\<close> is not visited, the request is issued and
  fails, and \<^verbatim>\<open>/p1\<close> is not in the visited set afterwards.
\<close>

theorem visited_on_dequeue_counterexample:
  "(''http://a.com/p1'', 1, FetchError)
     \<in> set (page_gets (fst (final (crawl_loop example_env (start (new_crawler ''http://a.com/'' 3 2))))))
   \<and> ''http://a.com/p1''
     |\<notin>| visited_urls (fst (final (crawl_loop example_env (start (new_crawler ''http://a.com/'' 3 2)))))"
  by code_simp

subsection \<open>C2: the page bound\<close>

text \<open>
  C2 (as amended). For every run of \<^verbatim>\<open>crawl\<close> and every sequence of fetch outcomes, the
  number of distinct URLs whose page request succeeded (the GET and the status check
  raised nothing) never exceeds \<^verbatim>\<open>max_pages\<close>, taken as 0 when it is negative. Requests
  that fail are not counted against \<^verbatim>\<open>max_pages\<close>.
\<close>

theorem fetched_bounded:
  "int (card (set (fetched_urls (fst (final (crawl_loop e (start (new_crawler url mp md)))))))) \<le> max 0 mp"
proof -
  define c where "c = fst (final (crawl_loop e (start (new_crawler url mp md))))"
  have "max_pages c = mp"
  proof -
    have "max_pages (fst (final (crawl_loop e (start (new_crawler url mp md))))) = mp"
    proof (rule crawl_loop_invariant [where P = "\<lambda>s. max_pages (fst s) = mp"])
      fix s :: run assume a: "max_pages (fst s) = mp" "loop_guard s"
      obtain c q st where s: "s = (c, q, st)" by (cases s)
      from a(2) s obtain u d q1 where q: "q = (u, d) # q1"
        by (cases q) (auto simp: loop_guard_def)
      obtain c' q' st' where f: "final (crawl_body e (c, (u, d) # q1, st)) = (c', q', st')"
        by (cases "final (crawl_body e (c, (u, d) # q1, st))")
      from crawl_body_visited [OF refl f] a(1) s q f
      show "max_pages (fst (final (crawl_body e s))) = mp" by simp
    qed (simp add: start_def new_crawler_def)
    then show ?thesis by (simp add: c_def)
  qed
  moreover from fetch_inv_final [of e url mp md]
  have "set (fetched_urls c) = fset (visited_urls c)" "int (fcard (visited_urls c)) \<le> max 0 (max_pages c)"
    by (simp_all add: fetch_inv_def c_def)
  ultimately have "int (card (set (fetched_urls c))) \<le> max 0 mp"
    by (simp add: fcard.rep_eq)
  then show ?thesis by (simp add: c_def)
qed

theorem fetched_bounded_witness:
  "fetched_urls (fst (final (crawl_loop example_env (start (new_crawler ''http://a.com/'' 2 2)))))
     = [''http://a.com/'', ''http://a.com/p2'']
   \<and> int (card (set (fetched_urls (fst (final (crawl_loop example_env
        (start (new_crawler ''http://a.com/'' 2 2)))))))) \<le> 2"
proof -
  have "fetched_urls (fst (final (crawl_loop example_env (start (new_crawler ''http://a.com/'' 2 2)))))
     = [''http://a.com/'', ''http://a.com/p2'']"
    by code_simp
  with fetched_bounded [of example_env "''http://a.com/''" 2 2] show ?thesis by simp
qed

text \<open>
  The claim as stated counts every request issued: with \<^verbatim>\<open>max_pages = 2\<close>, the seed is
  fetched, the request for \<^verbatim>\<open>/p1\<close> fails and \<^verbatim>\<open>/p2\<close> is fetched, so three distinct URLs
  are requested.
\<close>

theorem requests_bounded_counterexample:
  "\<not> int (card (set (map fst (page_gets (fst (final (crawl_loop example_env
        (start (new_crawler ''http://a.com/'' 2 2))))))))) \<le> 2"
  by code_simp

subsection \<open>C3: no second fetch\<close>

text \<open>
  C3 (as amended). For every URL and every run of \<^verbatim>\<open>crawl\<close>, once a page request for
  the URL has succeeded no further page request is issued for it, so each URL is fetched
  successfully at most once per run.
\<close>

theorem no_second_fetch:
  "no_refetch (page_gets (fst (final (crawl_loop e (start (new_crawler url mp md))))))
   \<and> distinct (fetched_urls (fst (final (crawl_loop e (start (new_crawler url mp md))))))"
  using fetch_inv_final [of e url mp md] by (simp add: fetch_inv_def)

theorem no_second_fetch_witness:
  "map fst (page_gets (fst (final (crawl_loop example_env (start (new_crawler ''http://a.com/'' 3 2))))))
     = [''http://a.com/'', ''http://a.com/p1'', ''http://a.com/p2'', ''http://a.com/p1'']
   \<and> no_refetch (page_gets (fst (final (crawl_loop example_env (start (new_crawler ''http://a.com/'' 3 2))))))
   \<and> distinct (fetched_urls (fst (final (crawl_loop example_env (start (new_crawler ''http://a.com/'' 3 2))))))"
proof -
  have "map fst (page_gets (fst (final (crawl_loop example_env (start (new_crawler ''http://a.com/'' 3 2))))))
     = [''http://a.com/'', ''http://a.com/p1'', ''http://a.com/p2'', ''http://a.com/p1'']"
    by code_simp
  with no_second_fetch [of example_env "''http://a.com/''" 3 2] show ?thesis by simp
qed

text \<open>
  The claim as stated also covers a URL whose earlier fetch failed: \<^verbatim>\<open>/p1\<close> fails when it
  is reached from the seed, is found again on \<^verbatim>\<open>/p2\<close>, and is requested a second time.
\<close>

theorem fetch_once_counterexample:
  "length (filter (\<lambda>g. fst g = ''http://a.com/p1'')
     (page_gets (fst (final (crawl_loop example_env (start (new_crawler ''http://a.com/'' 3 2))))))) = 2"
  by code_simp

subsection \<open>C4: the depth bound\<close>

text \<open>
  C4. For every run of \<^verbatim>\<open>crawl\<close>, every page request is issued for a URL whose recorded
  depth is at most \<^verbatim>\<open>max_depth\<close>; and an iteration on a queue entry whose depth equals
  \<^verbatim>\<open>max_depth\<close> appends nothing to the queue: the queue after it is the rest of the
  queue, whatever the page contains.
\<close>

theorem depth_bound:
  "(\<forall>g \<in> set (page_gets (fst (final (crawl_loop e (start (new_crawler url mp md)))))). fst (snd g) \<le> md)
   \<and> (\<forall>c u q st. fst (snd (final (crawl_body e (c, (u, max_depth c) # q, st)))) = q)"
proof
  define P :: "run \<Rightarrow> bool" where
    "P = (\<lambda>s. max_depth (fst s) = md \<and> (\<forall>g \<in> set (page_gets (fst s)). fst (snd g) \<le> md))"
  have "P (final (crawl_loop e (start (new_crawler url mp md))))"
  proof (rule crawl_loop_invariant)
    show "P (start (new_crawler url mp md))"
      by (simp add: P_def start_def new_crawler_def)
  next
    fix s assume Ps: "P s" and guard: "loop_guard s"
    obtain c q st where s: "s = (c, q, st)" by (cases s)
    from guard s obtain u d q1 where q: "q = (u, d) # q1"
      by (cases q) (auto simp: loop_guard_def)
    obtain c' q' st' where f: "final (crawl_body e (c, (u, d) # q1, st)) = (c', q', st')"
      by (cases "final (crawl_body e (c, (u, d) # q1, st))")
    from crawl_body_visited [OF refl f] have "max_depth c' = max_depth c" by simp
    moreover from crawl_body_log [OF refl f]
    have "page_gets c' = page_gets c \<or>
      (d \<le> max_depth c \<and> page_gets c' = page_gets c @ [(u, d, http_get_page e (clock c) u)])"
      by (auto split: if_splits)
    ultimately show "P (final (crawl_body e s))"
      using Ps s q f by (auto simp: P_def)
  qed
  then show "\<forall>g \<in> set (page_gets (fst (final (crawl_loop e (start (new_crawler url mp md)))))). fst (snd g) \<le> md"
    by (simp add: P_def)
next
  show "\<forall>c u q st. fst (snd (final (crawl_body e (c, (u, max_depth c) # q, st)))) = q"
  proof (intro allI)
    fix c u q st
    obtain c' q' st' where f: "final (crawl_body e (c, (u, max_depth c) # q, st)) = (c', q', st')"
      by (cases "final (crawl_body e (c, (u, max_depth c) # q, st))")
    from crawl_body_queue [OF refl f] have "q' = q" by auto
    with f show "fst (snd (final (crawl_body e (c, (u, max_depth c) # q, st)))) = q" by simp
  qed
qed

theorem depth_bound_witness:
  "page_gets (fst (final (crawl_loop example_env (start (new_crawler ''http://a.com/'' 3 1)))))
     = [(''http://a.com/'', 0, Parsed seed_page), (''http://a.com/p1'', 1, FetchError),
        (''http://a.com/p2'', 1, Parsed p2_page)]
   \<and> list_all (\<lambda>g. fst (snd g) \<le> 1)
        (page_gets (fst (final (crawl_loop example_env (start (new_crawler ''http://a.com/'' 3 1))))))
   \<and> fst (snd (final (crawl_body example_env
        (new_crawler ''http://a.com/'' 3 0, [(''http://a.com/'', 0)], zero_stats)))) = []"
proof -
  have run: "page_gets (fst (final (crawl_loop example_env (start (new_crawler ''http://a.com/'' 3 1)))))
     = [(''http://a.com/'', 0, Parsed seed_page), (''http://a.com/p1'', 1, FetchError),
        (''http://a.com/p2'', 1, Parsed p2_page)]"
    by code_simp
  have md: "max_depth (new_crawler ''http://a.com/'' 3 0) = 0"
    by (simp add: new_crawler_def)
  from depth_bound [of example_env "''http://a.com/''" 3 1]
  have "list_all (\<lambda>g. fst (snd g) \<le> 1)
        (page_gets (fst (final (crawl_loop example_env (start (new_crawler ''http://a.com/'' 3 1))))))"
    by (simp add: list_all_iff)
  moreover from depth_bound [of example_env "''http://a.com/''" 3 0] md
  have "fst (snd (final (crawl_body example_env
        (new_crawler ''http://a.com/'' 3 0, [(''http://a.com/'', 0)], zero_stats)))) = []"
    by metis
  ultimately show ?thesis using run by simp
qed

subsection \<open>C5: one file for each image content\<close>

text \<open>
  C5. The claim holds for calls of \<^verbatim>\<open>download_image\<close> that run one after the other, and
  fails for the concurrent workers of one page: the membership test at line 208 and the
  insertion at line 212 are separate statements with no lock around them. The seed page
  of the example site has two images with the same bytes. When the pool runs the
  request and the test of both workers before the insertion of either, both pass the
  test and both write a file; when it runs them one after the other, the second is
  rejected.
\<close>

theorem image_race:
  "image_files (snd (projr (extract_images racy_env (new_crawler ''http://a.com/'' 3 2) seed_page ''http://a.com/'')))
     = [(''http://a.com/i1.png_1700000000.png'', ''PNGDATA''),
        (''http://a.com/i2.png_1700000000.png'', ''PNGDATA'')]
   \<and> fst (projr (extract_images racy_env (new_crawler ''http://a.com/'' 3 2) seed_page ''http://a.com/'')) = 2
   \<and> schedule racy_env 0 = [0, 1, 0, 1]
   \<and> fst (run_schedule racy_env [0, 1, 0, 1]
          (map Pending [''http://a.com/i1.png'', ''http://a.com/i2.png''], new_crawler ''http://a.com/'' 3 2))
     = [Checked ''http://a.com/i1.png'' ''PNGDATA'' ''PNGDATA'',
        Checked ''http://a.com/i2.png'' ''PNGDATA'' ''PNGDATA'']
   \<and> image_files (snd (projr (extract_images example_env (new_crawler ''http://a.com/'' 3 2) seed_page ''http://a.com/'')))
     = [(''http://a.com/i1.png_1700000000.png'', ''PNGDATA'')]
   \<and> fst (projr (extract_images example_env (new_crawler ''http://a.com/'' 3 2) seed_page ''http://a.com/'')) = 1"
  by code_simp

subsection \<open>C6: the origin filter\<close>

text \<open>
  C6. In every state a run of \<^verbatim>\<open>crawl\<close> passes through, every entry of the queue is the
  seed or an absolute \<^verbatim>\<open>http://\<close> or \<^verbatim>\<open>https://\<close> URL whose network location (host and
  port) equals the seed's, so a link whose host differs from the seed's is never added;
  \<^verbatim>\<open>extract_links\<close> keeps only such URLs with the network location of the page; and an
  iteration whose page was downloaded leaves the error count as it was, whatever links
  the page holds.
\<close>

theorem origin_filter:
  "(reachable e (start c0) s \<longrightarrow> (\<forall>x \<in> set (fst (snd s)). same_origin e (base_url c0) (fst x)))
   \<and> (extract_links e soup page_url = Inr links \<longrightarrow>
        (\<forall>l \<in> set links. http_prefix l \<and> url_netloc e l = url_netloc e page_url))
   \<and> (download_page e c url depth = (Some soup, c1) \<and> url |\<notin>| visited_urls c \<longrightarrow>
        errors (snd (snd (final (crawl_body e (c, (url, depth) # q, st))))) = errors st)"
  using reachable_frontier extract_links_sound crawl_body_parsed_errors by blast

theorem origin_filter_witness:
  "reachable example_env (start (new_crawler ''http://a.com/'' 3 2))
     (final (crawl_body example_env (start (new_crawler ''http://a.com/'' 3 2))))
   \<and> fst (snd (final (crawl_body example_env (start (new_crawler ''http://a.com/'' 3 2)))))
       = [(''http://a.com/p1'', 1), (''http://a.com/p2'', 1)]
   \<and> list_all (\<lambda>x. same_origin example_env ''http://a.com/'' (fst x))
        (fst (snd (final (crawl_body example_env (start (new_crawler ''http://a.com/'' 3 2))))))
   \<and> extract_links example_env seed_page ''http://a.com/'' = Inr [''http://a.com/p1'', ''http://a.com/p2'']
   \<and> list_all (\<lambda>l. http_prefix l \<and> url_netloc example_env l = url_netloc example_env ''http://a.com/'')
        [''http://a.com/p1'', ''http://a.com/p2'']
   \<and> fst (download_page example_env (new_crawler ''http://a.com/'' 3 2) ''http://a.com/'' 0) = Some seed_page
   \<and> errors (snd (snd (final (crawl_body example_env (start (new_crawler ''http://a.com/'' 3 2)))))) = 0"
proof -
  define c0 where "c0 = new_crawler ''http://a.com/'' 3 2"
  define s1 where "s1 = final (crawl_body example_env (start c0))"
  have returns: "case crawl_body example_env (start c0) of Inl x \<Rightarrow> False | Inr s \<Rightarrow> True"
    unfolding c0_def by code_simp
  then have body: "crawl_body example_env (start c0) = Inr s1"
    by (cases "crawl_body example_env (start c0)") (simp_all add: s1_def final_def)
  have guard: "loop_guard (start c0)"
    unfolding c0_def by code_simp
  have reach: "reachable example_env (start c0) s1"
    using reachable_start guard body by (rule reachable_step)
  have queue: "fst (snd s1) = [(''http://a.com/p1'', 1), (''http://a.com/p2'', 1)]"
    unfolding s1_def c0_def by code_simp
  have links: "extract_links example_env seed_page ''http://a.com/'' = Inr [''http://a.com/p1'', ''http://a.com/p2'']"
    by code_simp
  have page: "fst (download_page example_env c0 ''http://a.com/'' 0) = Some seed_page"
    unfolding c0_def by code_simp
  then have dl: "download_page example_env c0 ''http://a.com/'' 0
      = (Some seed_page, snd (download_page example_env c0 ''http://a.com/'' 0))"
    by (metis prod.collapse)
  have fresh: "''http://a.com/'' |\<notin>| visited_urls c0" "base_url c0 = ''http://a.com/''"
    by (simp_all add: c0_def new_crawler_def)
  have st: "start c0 = (c0, (''http://a.com/'', 0) # [], zero_stats)"
    by (simp add: start_def fresh)
  note inst = origin_filter [of example_env c0 s1 seed_page "''http://a.com/''"
      "[''http://a.com/p1'', ''http://a.com/p2'']" c0 "''http://a.com/''" 0
      "snd (download_page example_env c0 ''http://a.com/'' 0)" "[]" zero_stats]
  from inst reach fresh have a: "list_all (\<lambda>x. same_origin example_env ''http://a.com/'' (fst x)) (fst (snd s1))"
    by (simp add: list_all_iff)
  from inst links have b: "list_all (\<lambda>l. http_prefix l \<and> url_netloc example_env l = url_netloc example_env ''http://a.com/'')
        [''http://a.com/p1'', ''http://a.com/p2'']"
    by simp
  from inst dl fresh have c: "errors (snd (snd s1)) = 0"
    by (simp add: s1_def st zero_stats_def)
  from reach queue a links b page c show ?thesis
    by (simp add: s1_def c0_def)
qed

subsection \<open>C7: fetch failures\<close>

text \<open>
  C7 (as amended). Every failed page fetch (a timeout, a connection failure, a response
  whose status is from 400 to 599, which are the statuses \<^verbatim>\<open>raise_for_status\<close> raises for,
  or a page that cannot be parsed) increments \<^verbatim>\<open>errors\<close> by exactly one, that queue entry
  is dropped and the loop goes on with the rest of the queue: a failed page fetch never
  ends the run. A response with any other status, 2xx or not, is downloaded: it is
  counted in \<^verbatim>\<open>pages_crawled\<close> and leaves \<^verbatim>\<open>errors\<close> as it was. When \<^verbatim>\<open>crawl\<close>
  returns (with \<^verbatim>\<open>max_depth\<close> at least 0) \<^verbatim>\<open>errors\<close> is the number of failed page
  requests. A failed image fetch (lines 195 and 196 raise) does not end the run either,
  but it is not counted in \<^verbatim>\<open>errors\<close>: \<^verbatim>\<open>download_image\<close> returns \<^verbatim>\<open>False\<close> and changes
  nothing but the trace of requests.
\<close>

theorem fetch_failures:
  "(url |\<notin>| visited_urls c \<and>
      (session_get e (clock c) url = Timeout \<or> session_get e (clock c) url = ConnectionFailed \<or>
       (\<exists>parsed. session_get e (clock c) url = Responded status parsed \<and>
          (400 \<le> status \<and> status < 600 \<or> parsed = None))) \<longrightarrow>
      (\<exists>c'. crawl_body e (c, (url, depth) # q, st) = Inr (c', q, st\<lparr>errors := errors st + 1\<rparr>) \<and>
         (loop_guard (c, (url, depth) # q, st) \<longrightarrow>
            crawl_loop e (c, (url, depth) # q, st) = crawl_loop e (c', q, st\<lparr>errors := errors st + 1\<rparr>))))
   \<and> (url |\<notin>| visited_urls c \<and> int (fcard (visited_urls c)) < max_pages c \<and> depth \<le> max_depth c \<and>
        session_get e (clock c) url = Responded status (Some soup) \<and>
        \<not> (400 \<le> status \<and> status < 600) \<longrightarrow>
        errors (snd (snd (final (crawl_body e (c, (url, depth) # q, st))))) = errors st \<and>
        pages_crawled (snd (snd (final (crawl_body e (c, (url, depth) # q, st))))) = pages_crawled st + 1)
   \<and> (0 \<le> md \<and> crawl e (new_crawler seed mp md) = Inr (st1, c1) \<longrightarrow>
        errors st1 = int (length (failed_gets c1)))
   \<and> (http_get_image e (clock c) img_url = ImageError \<longrightarrow>
        download_image e c img_url
          = (False, c\<lparr>clock := Suc (clock c), image_gets := image_gets c @ [(img_url, ImageError)]\<rparr>))"
  using failed_fetch_raw [of url c e status depth q st]
    other_status_counted [of url c depth e status soup q st]
    errors_count [of md e seed mp st1 c1]
    failed_image_fetch [of e c img_url]
  by blast

theorem fetch_failures_witness:
  "''http://a.com/p1'' |\<notin>| visited_urls (new_crawler ''http://a.com/'' 3 2)
   \<and> session_get example_env 0 ''http://a.com/p1'' = Responded 500 (Some [Text ''error''])
   \<and> errors (snd (snd (final (crawl_body example_env
        (new_crawler ''http://a.com/'' 3 2, [(''http://a.com/p1'', 1)], zero_stats))))) = 1
   \<and> session_get example_env 0 ''http://a.com/choices'' = Responded 300 (Some choices_page)
   \<and> errors (snd (snd (final (crawl_body example_env
        (new_crawler ''http://a.com/'' 3 2, [(''http://a.com/choices'', 1)], zero_stats))))) = 0
   \<and> pages_crawled (snd (snd (final (crawl_body example_env
        (new_crawler ''http://a.com/'' 3 2, [(''http://a.com/choices'', 1)], zero_stats))))) = 1
   \<and> crawl example_env (new_crawler ''http://a.com/'' 3 2)
       = Inr (snd (snd (final (crawl_loop example_env (start (new_crawler ''http://a.com/'' 3 2))))),
              fst (final (crawl_loop example_env (start (new_crawler ''http://a.com/'' 3 2)))))
   \<and> errors (snd (snd (final (crawl_loop example_env (start (new_crawler ''http://a.com/'' 3 2)))))) = 2
   \<and> length (failed_gets (fst (final (crawl_loop example_env (start (new_crawler ''http://a.com/'' 3 2)))))) = 2
   \<and> http_get_image example_env 0 ''http://a.com/broken.png'' = ImageError
   \<and> fst (download_image example_env (new_crawler ''http://a.com/'' 3 2) ''http://a.com/broken.png'') = False"
proof -
  define c0 where "c0 = new_crawler ''http://a.com/'' 3 2"
  define st1 where "st1 = snd (snd (final (crawl_loop example_env (start c0))))"
  define c1 where "c1 = fst (final (crawl_loop example_env (start c0)))"
  note inst = fetch_failures [of "''http://a.com/p1''" c0 example_env 500 1 "[]" zero_stats
      "[Text ''error'']" 2 "''http://a.com/''" 3 st1 c1 "''http://a.com/broken.png''"]
  note inst2 = fetch_failures [of "''http://a.com/choices''" c0 example_env 300 1 "[]" zero_stats
      choices_page 2 "''http://a.com/''" 3 st1 c1 "''http://a.com/broken.png''"]
  have fresh: "''http://a.com/p1'' |\<notin>| visited_urls c0" "''http://a.com/choices'' |\<notin>| visited_urls c0"
    "clock c0 = 0" "int (fcard (visited_urls c0)) < max_pages c0" "1 \<le> max_depth c0"
    by (simp_all add: c0_def new_crawler_def fcard_fempty)
  have r500: "session_get example_env 0 ''http://a.com/p1'' = Responded 500 (Some [Text ''error''])"
    by code_simp
  have r300: "session_get example_env 0 ''http://a.com/choices'' = Responded 300 (Some choices_page)"
    by code_simp
  from inst fresh r500
  have a: "errors (snd (snd (final (crawl_body example_env (c0, [(''http://a.com/p1'', 1)], zero_stats))))) = 1"
    by (auto simp: final_def zero_stats_def)
  from inst2 fresh r300
  have a2: "errors (snd (snd (final (crawl_body example_env (c0, [(''http://a.com/choices'', 1)], zero_stats))))) = 0"
    "pages_crawled (snd (snd (final (crawl_body example_env (c0, [(''http://a.com/choices'', 1)], zero_stats))))) = 1"
    by (simp_all add: zero_stats_def)
  have "case crawl example_env c0 of Inl x \<Rightarrow> False | Inr r \<Rightarrow> True"
    unfolding c0_def by code_simp
  then have "crawl example_env c0 = Inr (st1, c1)"
    by (auto simp: crawl_def st1_def c1_def final_def split: sum.splits)
  then have returns: "crawl example_env (new_crawler ''http://a.com/'' 3 2) = Inr (st1, c1)"
    by (simp add: c0_def)
  have count: "errors st1 = 2"
    unfolding st1_def c0_def by code_simp
  from inst returns count have b: "length (failed_gets c1) = 2"
    by simp
  have img: "http_get_image example_env 0 ''http://a.com/broken.png'' = ImageError"
    by code_simp
  from inst img fresh have c: "fst (download_image example_env c0 ''http://a.com/broken.png'') = False"
    by simp
  from fresh r500 r300 a a2 returns count b img c show ?thesis
    by (simp add: c0_def st1_def c1_def)
qed

text \<open>
  The claim as stated covers every fetch of a run and every status that is not 2xx. On
  the example site the run from \<^verbatim>\<open>/p2\<close> downloads the page, the request for its image
  fails, and \<^verbatim>\<open>errors\<close> is 0 at the end; and the run from \<^verbatim>\<open>/choices\<close> gets a final
  response with status 300, which is parsed and counted as a page, and \<^verbatim>\<open>errors\<close> is 0
  at the end.
\<close>

theorem fetch_failures_counterexample:
  "image_gets (fst (final (crawl_loop example_env (start (new_crawler ''http://a.com/p2'' 1 0)))))
     = [(''http://a.com/broken.png'', ImageError)]
   \<and> errors (snd (snd (final (crawl_loop example_env (start (new_crawler ''http://a.com/p2'' 1 0)))))) = 0
   \<and> session_get example_env 0 ''http://a.com/choices'' = Responded 300 (Some choices_page)
   \<and> page_gets (fst (final (crawl_loop example_env (start (new_crawler ''http://a.com/choices'' 1 0)))))
     = [(''http://a.com/choices'', 0, Parsed choices_page)]
   \<and> errors (snd (snd (final (crawl_loop example_env (start (new_crawler ''http://a.com/choices'' 1 0)))))) = 0
   \<and> pages_crawled (snd (snd (final (crawl_loop example_env (start (new_crawler ''http://a.com/choices'' 1 0)))))) = 1"
  by code_simp

subsection \<open>C8: what extract_text changes\<close>

text \<open>
  C8 (as amended). The string \<^verbatim>\<open>extract_text\<close> returns is a function of the parsed
  document alone (not of the crawler or the URL), and the function leaves the crawler's
  visited set, image hashes, limits, requests and image files unchanged. It is not free
  of side effects: it removes the \<^verbatim>\<open>script\<close> and \<^verbatim>\<open>style\<close> subtrees from the document
  in place, and it writes the text file itself (the header, then the returned text);
  when the write fails the exception propagates to the caller.
\<close>

theorem extract_text_effects:
  "(extract_text e c soup url = Inr (tx, soup1, c') \<longrightarrow>
      soup1 = concat (map (extract_tags [''script'', ''style'']) soup) \<and>
      (\<exists>name. text_files c' = text_files c @ [(name, text_header e url (now e (clock c)) @ tx)]) \<and>
      base_url c' = base_url c \<and> max_pages c' = max_pages c \<and> max_depth c' = max_depth c \<and>
      visited_urls c' = visited_urls c \<and> image_hashes c' = image_hashes c \<and>
      page_gets c' = page_gets c \<and> image_gets c' = image_gets c \<and> image_files c' = image_files c)
   \<and> (extract_text e c soup url = Inr (tx, soup1, c') \<and>
        extract_text e c2 soup url2 = Inr (tx2, soup2, c2') \<longrightarrow> tx2 = tx \<and> soup2 = soup1)
   \<and> (extract_text e c soup url = Inl (er, c') \<longrightarrow> er = OSError \<and> c' = c\<lparr>clock := Suc (clock c)\<rparr>)"
proof -
  have returned: "extract_text e c soup url = Inr (tx, soup1, c') \<longrightarrow>
      soup1 = concat (map (extract_tags [''script'', ''style'']) soup) \<and>
      (\<exists>name. text_files c' = text_files c @ [(name, text_header e url (now e (clock c)) @ tx)]) \<and>
      base_url c' = base_url c \<and> max_pages c' = max_pages c \<and> max_depth c' = max_depth c \<and>
      visited_urls c' = visited_urls c \<and> image_hashes c' = image_hashes c \<and>
      page_gets c' = page_gets c \<and> image_gets c' = image_gets c \<and> image_files c' = image_files c"
  proof
    assume r: "extract_text e c soup url = Inr (tx, soup1, c')"
    from extract_text_returns [OF r] extract_text_fields [OF r, of c']
    show "soup1 = concat (map (extract_tags [''script'', ''style'']) soup) \<and>
      (\<exists>name. text_files c' = text_files c @ [(name, text_header e url (now e (clock c)) @ tx)]) \<and>
      base_url c' = base_url c \<and> max_pages c' = max_pages c \<and> max_depth c' = max_depth c \<and>
      visited_urls c' = visited_urls c \<and> image_hashes c' = image_hashes c \<and>
      page_gets c' = page_gets c \<and> image_gets c' = image_gets c \<and> image_files c' = image_files c"
      by simp
  qed
  have same: "extract_text e c soup url = Inr (tx, soup1, c') \<and>
        extract_text e c2 soup url2 = Inr (tx2, soup2, c2') \<longrightarrow> tx2 = tx \<and> soup2 = soup1"
    using extract_text_same_text by blast
  have raised: "extract_text e c soup url = Inl (er, c') \<longrightarrow> er = OSError \<and> c' = c\<lparr>clock := Suc (clock c)\<rparr>"
    using extract_text_raises by blast
  from returned same raised show ?thesis by (intro conjI)
qed

theorem extract_text_effects_witness:
  "fst (projr (extract_text example_env (new_crawler ''http://a.com/'' 3 2) seed_page ''http://a.com/''))
     = ''one'' @ newline @ ''ext'' @ newline @ ''two''
   \<and> fst (projr (extract_text example_env (new_crawler ''http://a.com/p2'' 1 0) seed_page ''http://a.com/x''))
     = ''one'' @ newline @ ''ext'' @ newline @ ''two''
   \<and> visited_urls (snd (snd (projr (extract_text example_env (new_crawler ''http://a.com/'' 3 2)
        seed_page ''http://a.com/'')))) = {||}
   \<and> extract_text full_disk_env (new_crawler ''http://a.com/'' 3 2) seed_page ''http://a.com/''
       = Inl (OSError, new_crawler ''http://a.com/'' 3 2\<lparr>clock := 1\<rparr>)"
proof -
  define c0 where "c0 = new_crawler ''http://a.com/'' 3 2"
  define c2 where "c2 = new_crawler ''http://a.com/p2'' 1 0"
  define r where "r = projr (extract_text example_env c0 seed_page ''http://a.com/'')"
  define r2 where "r2 = projr (extract_text example_env c2 seed_page ''http://a.com/x'')"
  define rf where "rf = projl (extract_text full_disk_env c0 seed_page ''http://a.com/'')"
  have "case extract_text example_env c0 seed_page ''http://a.com/'' of Inl x \<Rightarrow> False | Inr y \<Rightarrow> True"
    unfolding c0_def by code_simp
  then have a: "extract_text example_env c0 seed_page ''http://a.com/'' = Inr (fst r, fst (snd r), snd (snd r))"
    by (simp add: r_def split: sum.splits)
  have "case extract_text example_env c2 seed_page ''http://a.com/x'' of Inl x \<Rightarrow> False | Inr y \<Rightarrow> True"
    unfolding c2_def by code_simp
  then have b: "extract_text example_env c2 seed_page ''http://a.com/x'' = Inr (fst r2, fst (snd r2), snd (snd r2))"
    by (simp add: r2_def split: sum.splits)
  have "case extract_text full_disk_env c0 seed_page ''http://a.com/'' of Inl x \<Rightarrow> True | Inr y \<Rightarrow> False"
    unfolding c0_def by code_simp
  then have f: "extract_text full_disk_env c0 seed_page ''http://a.com/'' = Inl (fst rf, snd rf)"
    by (simp add: rf_def split: sum.splits)
  have tx: "fst r = ''one'' @ newline @ ''ext'' @ newline @ ''two''"
    unfolding r_def c0_def by code_simp
  have fresh: "visited_urls c0 = {||}" "clock c0 = 0"
    by (simp_all add: c0_def new_crawler_def)
  from extract_text_effects [of example_env c0 seed_page "''http://a.com/''" "fst r" "fst (snd r)" "snd (snd r)"
      c2 "''http://a.com/x''" "fst r2" "fst (snd r2)" "snd (snd r2)" OSError] a b tx fresh
  have one: "fst r2 = ''one'' @ newline @ ''ext'' @ newline @ ''two''" "visited_urls (snd (snd r)) = {||}"
    by simp_all
  from extract_text_effects [of full_disk_env c0 seed_page "''http://a.com/''" "fst r" "fst (snd r)" "snd rf"
      c2 "''http://a.com/x''" "fst r2" "fst (snd r2)" "snd (snd r2)" "fst rf"] f fresh
  have two: "extract_text full_disk_env c0 seed_page ''http://a.com/'' = Inl (OSError, c0\<lparr>clock := 1\<rparr>)"
    by simp
  from tx one two show ?thesis
    by (simp add: r_def r2_def c0_def c2_def)
qed

text \<open>
  The claim as stated fails on the example page: the document that comes back has lost
  its \<^verbatim>\<open>script\<close> subtree, and a text file has been written.
\<close>

theorem extract_text_pure_counterexample:
  "fst (snd (projr (extract_text example_env (new_crawler ''http://a.com/'' 3 2) seed_page ''http://a.com/'')))
     \<noteq> seed_page
   \<and> map fst (text_files (snd (snd (projr (extract_text example_env (new_crawler ''http://a.com/'' 3 2)
        seed_page ''http://a.com/'')))))
     = [''http://a.com/_1700000000.txt'']
   \<and> text_files (new_crawler ''http://a.com/'' 3 2) = []"
  by code_simp

subsection \<open>C9: termination\<close>

text \<open>
  C9 (as amended). The loop of \<^verbatim>\<open>crawl\<close> terminates from every state and in every
  environment, also on page graphs with cycles: some number of iterations ends it with
  the result of the loop. In each iteration the visited set only grows; the queue loses
  its head and gains only links of the page, at the next depth, that are not visited and
  have the network location of the page; and \<^verbatim>\<open>max_pages\<close> bounds the dequeues whose
  fetch succeeds, each of which adds exactly one URL to a visited set that never holds
  more than \<^verbatim>\<open>max_pages\<close> URLs that way. A dequeue whose fetch fails is not counted
  against \<^verbatim>\<open>max_pages\<close>; it shortens the queue.
\<close>

theorem crawl_terminates:
  "(\<exists>n. crawl_fuel n e s = Some (crawl_loop e s))
   \<and> (final (crawl_body e (c, (url, depth) # q, st)) = (c', q', st') \<longrightarrow>
        visited_urls c |\<subseteq>| visited_urls c' \<and>
        (\<exists>new. q' = q @ map (\<lambda>l. (l, depth + 1)) new \<and>
           (\<forall>l \<in> set new. l |\<notin>| visited_urls c' \<and> http_prefix l \<and> url_netloc e l = url_netloc e url)) \<and>
        (visited_urls c' \<noteq> visited_urls c \<longrightarrow>
           fcard (visited_urls c') = Suc (fcard (visited_urls c)) \<and>
           int (fcard (visited_urls c')) \<le> max_pages c) \<and>
        (visited_urls c' = visited_urls c \<longrightarrow> q' = q))"
proof -
  have "visited_urls c' = visited_urls c \<longrightarrow> q' = q"
    if "final (crawl_body e (c, (url, depth) # q, st)) = (c', q', st')"
    using crawl_body_visited [OF refl that] by auto
  with crawl_fuel_terminates [of e s] crawl_body_frontier [of e c url depth q st c' q' st']
    crawl_body_grows [of e c url depth q st c' q' st']
  show ?thesis by blast
qed

theorem crawl_terminates_witness:
  "crawl_fuel 5 example_env (start (new_crawler ''http://a.com/'' 3 2))
     = Some (crawl_loop example_env (start (new_crawler ''http://a.com/'' 3 2)))
   \<and> visited_urls (fst (final (crawl_body example_env (start (new_crawler ''http://a.com/'' 3 2)))))
       = {|''http://a.com/''|}
   \<and> fst (snd (final (crawl_body example_env (start (new_crawler ''http://a.com/'' 3 2)))))
       = [(''http://a.com/p1'', 1), (''http://a.com/p2'', 1)]
   \<and> fcard (visited_urls (fst (final (crawl_body example_env (start (new_crawler ''http://a.com/'' 3 2)))))) = 1"
proof -
  define c0 where "c0 = new_crawler ''http://a.com/'' 3 2"
  define s1 where "s1 = final (crawl_body example_env (start c0))"
  have st: "start c0 = (c0, (''http://a.com/'', 0) # [], zero_stats)"
    by (simp add: start_def c0_def new_crawler_def)
  have f: "final (crawl_body example_env (c0, (''http://a.com/'', 0) # [], zero_stats))
      = (fst s1, fst (snd s1), snd (snd s1))"
    by (simp add: s1_def st)
  have vis: "visited_urls (fst s1) = {|''http://a.com/''|}"
    unfolding s1_def c0_def by code_simp
  have queue: "fst (snd s1) = [(''http://a.com/p1'', 1), (''http://a.com/p2'', 1)]"
    unfolding s1_def c0_def by code_simp
  have fresh: "visited_urls c0 = {||}"
    by (simp add: c0_def new_crawler_def)
  have steps: "crawl_fuel 5 example_env (start c0) \<noteq> None"
    unfolding c0_def by code_simp
  from crawl_terminates [of example_env "start c0" c0 "''http://a.com/''" 0 "[]" zero_stats
      "fst s1" "fst (snd s1)" "snd (snd s1)"] f vis fresh
  have a: "fcard (visited_urls (fst s1)) = 1"
    and ex: "\<exists>n. crawl_fuel n example_env (start c0) = Some (crawl_loop example_env (start c0))"
    by (simp_all add: fcard_fempty)
  have mono: "crawl_fuel m e s = Some r" if "crawl_fuel n e s = Some r" "n \<le> m" for n m e s r
    using that
  proof (induction n e s arbitrary: m rule: crawl_fuel.induct)
    case (1 e s)
    then show ?case by simp
  next
    case (2 n e s)
    then obtain m' where m: "m = Suc m'" "n \<le> m'" by (cases m) auto
    with 2 show ?case by (auto split: if_splits sum.splits)
  qed
  from ex obtain n where n: "crawl_fuel n example_env (start c0) = Some (crawl_loop example_env (start c0))" ..
  from steps obtain r where r: "crawl_fuel 5 example_env (start c0) = Some r" by blast
  have "r = crawl_loop example_env (start c0)"
  proof (cases "n \<le> 5")
    case True
    from mono [OF n True] r show ?thesis by simp
  next
    case False
    then have "5 \<le> n" by simp
    from mono [OF r this] n show ?thesis by simp
  qed
  with r vis queue a show ?thesis by (simp add: s1_def c0_def)
qed

text \<open>
  The claim as stated bounds by \<^verbatim>\<open>max_pages\<close> the dequeues that pass the visited check.
  Each of them increments \<^verbatim>\<open>errors\<close> or \<^verbatim>\<open>pages_crawled\<close>; in the run on the example
  site with \<^verbatim>\<open>max_pages = 3\<close> there are four.
\<close>

theorem dequeues_bound_counterexample:
  "pages_crawled (snd (snd (final (crawl_loop example_env (start (new_crawler ''http://a.com/'' 3 2))))))
     + errors (snd (snd (final (crawl_loop example_env (start (new_crawler ''http://a.com/'' 3 2)))))) = 4
   \<and> max_pages (fst (final (crawl_loop example_env (start (new_crawler ''http://a.com/'' 3 2))))) = 3"
  by code_simp

subsection \<open>C10: texts saved and pages crawled\<close>

text \<open>
  C10. Whenever \<^verbatim>\<open>crawl\<close> returns its statistics, \<^verbatim>\<open>texts_saved\<close> equals
  \<^verbatim>\<open>pages_crawled\<close>, both equal the number of page requests that were downloaded and
  parsed, and that is the number of text files written; and the files written are, in the
  order of those requests, the saved texts of those pages: each is named from the hash of
  the page's URL and holds the header for that URL followed by the text \<^verbatim>\<open>extract_text\<close>
  returns for the page's document. So each such page has its extracted text written and
  counted once. In an iteration whose page was downloaded and whose write succeeds, that
  file is appended to the files written, and so it is by every call of \<^verbatim>\<open>extract_text\<close>
  that returns. When writing the text file fails, the exception
  leaves the loop: the iteration and the loop end with the error, \<^verbatim>\<open>pages_crawled\<close>
  already incremented and \<^verbatim>\<open>errors\<close> unchanged, and no statistics are returned.
\<close>

theorem texts_match_pages:
  "(crawl e (new_crawler seed mp md) = Inr (st, c) \<longrightarrow>
      texts_saved st = pages_crawled st \<and> pages_crawled st = int (length (parsed_gets c)) \<and>
      int (length (text_files c)) = texts_saved st \<and>
      list_all2 (saved_as e) (parsed_gets c) (text_files c))
   \<and> (url |\<notin>| visited_urls c0 \<and> download_page e c0 url depth = (Some soup, c1) \<and>
        \<not> write_fails e (clock c1) \<longrightarrow>
        text_files (fst (final (crawl_body e (c0, (url, depth) # q, st0))))
          = text_files c0 @ [text_file e url soup (clock c1)])
   \<and> (url |\<notin>| visited_urls c0 \<and> download_page e c0 url depth = (Some soup, c1) \<and>
        write_fails e (clock c1) \<longrightarrow>
        crawl_body e (c0, (url, depth) # q, st0)
          = Inl (OSError, c1\<lparr>clock := Suc (clock c1)\<rparr>, q, st0\<lparr>pages_crawled := pages_crawled st0 + 1\<rparr>)
        \<and> (loop_guard (c0, (url, depth) # q, st0) \<longrightarrow>
             crawl_loop e (c0, (url, depth) # q, st0)
               = Inl (OSError, c1\<lparr>clock := Suc (clock c1)\<rparr>, q,
                      st0\<lparr>pages_crawled := pages_crawled st0 + 1\<rparr>)))
   \<and> (extract_text e c2 soup2 url2 = Inr (tx, soup3, c3) \<longrightarrow>
        tx = page_text e soup2 \<and> text_files c3 = text_files c2 @ [text_file e url2 soup2 (clock c2)])"
  using texts_count [of e seed mp md st c] texts_saved_as [of e seed mp md st c]
    text_written [of url c0 e depth soup c1 q st0]
    text_write_fails [of url c0 e depth soup c1 q st0]
    extract_text_saves [of e c2 soup2 url2 tx soup3 c3]
  by blast

theorem texts_match_pages_witness:
  "crawl example_env (new_crawler ''http://a.com/'' 3 2)
       = Inr (snd (snd (final (crawl_loop example_env (start (new_crawler ''http://a.com/'' 3 2))))),
              fst (final (crawl_loop example_env (start (new_crawler ''http://a.com/'' 3 2)))))
   \<and> pages_crawled (snd (snd (final (crawl_loop example_env (start (new_crawler ''http://a.com/'' 3 2)))))) = 2
   \<and> texts_saved (snd (snd (final (crawl_loop example_env (start (new_crawler ''http://a.com/'' 3 2)))))) = 2
   \<and> length (text_files (fst (final (crawl_loop example_env (start (new_crawler ''http://a.com/'' 3 2)))))) = 2
   \<and> list_all2 (saved_as example_env)
        (parsed_gets (fst (final (crawl_loop example_env (start (new_crawler ''http://a.com/'' 3 2))))))
        (text_files (fst (final (crawl_loop example_env (start (new_crawler ''http://a.com/'' 3 2))))))
   \<and> map fst (parsed_gets (fst (final (crawl_loop example_env (start (new_crawler ''http://a.com/'' 3 2))))))
       = [''http://a.com/'', ''http://a.com/p2'']
   \<and> text_files (fst (final (crawl_loop example_env (start (new_crawler ''http://a.com/'' 3 2)))))
       = [(''http://a.com/_1700000000.txt'',
           ''URL: http://a.com/'' @ newline @ ''2023-11-14 22:13:20'' @ newline @ replicate 50 (CHR ''='')
             @ newline @ newline @ ''one'' @ newline @ ''ext'' @ newline @ ''two''),
          (''http://a.com/p2_1700000000.txt'',
           ''URL: http://a.com/p2'' @ newline @ ''2023-11-14 22:13:20'' @ newline @ replicate 50 (CHR ''='')
             @ newline @ newline @ ''back'')]
   \<and> ''http://a.com/'' |\<notin>| visited_urls (new_crawler ''http://a.com/'' 3 2)
   \<and> fst (download_page example_env (new_crawler ''http://a.com/'' 3 2) ''http://a.com/'' 0) = Some seed_page
   \<and> \<not> write_fails example_env 1
   \<and> text_files (fst (final (crawl_body example_env (start (new_crawler ''http://a.com/'' 3 2)))))
       = [text_file example_env ''http://a.com/'' seed_page 1]
   \<and> fst (download_page full_disk_env (new_crawler ''http://a.com/'' 3 2) ''http://a.com/'' 0) = Some seed_page
   \<and> write_fails full_disk_env 1
   \<and> loop_guard (start (new_crawler ''http://a.com/'' 3 2))
   \<and> crawl full_disk_env (new_crawler ''http://a.com/'' 3 2)
       = Inl (OSError, snd (download_page full_disk_env (new_crawler ''http://a.com/'' 3 2) ''http://a.com/'' 0)
                \<lparr>clock := 2\<rparr>, [], zero_stats\<lparr>pages_crawled := 1\<rparr>)
   \<and> fst (projr (extract_text example_env (new_crawler ''http://a.com/'' 3 2) seed_page ''http://a.com/''))
       = ''one'' @ newline @ ''ext'' @ newline @ ''two''
   \<and> page_text example_env seed_page = ''one'' @ newline @ ''ext'' @ newline @ ''two''
   \<and> text_files (snd (snd (projr (extract_text example_env (new_crawler ''http://a.com/'' 3 2)
        seed_page ''http://a.com/''))))
       = [text_file example_env ''http://a.com/'' seed_page 0]"
proof -
  define c0 where "c0 = new_crawler ''http://a.com/'' 3 2"
  define st1 where "st1 = snd (snd (final (crawl_loop example_env (start c0))))"
  define c1 where "c1 = fst (final (crawl_loop example_env (start c0)))"
  define r where "r = projr (extract_text example_env c0 seed_page ''http://a.com/'')"
  define d0 where "d0 = snd (download_page example_env c0 ''http://a.com/'' 0)"
  define d1 where "d1 = snd (download_page full_disk_env c0 ''http://a.com/'' 0)"
  have "case crawl example_env c0 of Inl x \<Rightarrow> False | Inr r \<Rightarrow> True"
    unfolding c0_def by code_simp
  then have "crawl example_env c0 = Inr (st1, c1)"
    by (auto simp: crawl_def st1_def c1_def final_def split: sum.splits)
  then have returns: "crawl example_env (new_crawler ''http://a.com/'' 3 2) = Inr (st1, c1)"
    by (simp add: c0_def)
  have pages: "pages_crawled st1 = 2"
    unfolding st1_def c0_def by code_simp
  have urls: "map fst (parsed_gets c1) = [''http://a.com/'', ''http://a.com/p2'']"
    unfolding c1_def c0_def by code_simp
  have files: "text_files c1
       = [(''http://a.com/_1700000000.txt'',
           ''URL: http://a.com/'' @ newline @ ''2023-11-14 22:13:20'' @ newline @ replicate 50 (CHR ''='')
             @ newline @ newline @ ''one'' @ newline @ ''ext'' @ newline @ ''two''),
          (''http://a.com/p2_1700000000.txt'',
           ''URL: http://a.com/p2'' @ newline @ ''2023-11-14 22:13:20'' @ newline @ replicate 50 (CHR ''='')
             @ newline @ newline @ ''back'')]"
    unfolding c1_def c0_def by code_simp
  have fresh: "''http://a.com/'' |\<notin>| visited_urls c0" "text_files c0 = []"
    by (simp_all add: c0_def new_crawler_def)
  have st: "start c0 = (c0, (''http://a.com/'', 0) # [], zero_stats)"
    by (simp add: start_def c0_def new_crawler_def)
  have page0: "fst (download_page example_env c0 ''http://a.com/'' 0) = Some seed_page"
    unfolding c0_def by code_simp
  then have dl0: "download_page example_env c0 ''http://a.com/'' 0 = (Some seed_page, d0)"
    unfolding d0_def by (metis prod.collapse)
  have tick0: "clock d0 = 1"
    unfolding d0_def c0_def by code_simp
  have ok: "\<not> write_fails example_env 1"
    by code_simp
  have "case extract_text example_env c0 seed_page ''http://a.com/'' of Inl x \<Rightarrow> False | Inr y \<Rightarrow> True"
    unfolding c0_def by code_simp
  then have ex: "extract_text example_env c0 seed_page ''http://a.com/'' = Inr (fst r, fst (snd r), snd (snd r))"
    by (simp add: r_def split: sum.splits)
  have tx: "fst r = ''one'' @ newline @ ''ext'' @ newline @ ''two''"
    unfolding r_def c0_def by code_simp
  have clk: "clock c0 = 0"
    by (simp add: c0_def new_crawler_def)
  note inst = texts_match_pages [of example_env "''http://a.com/''" 3 2 st1 c1
      "''http://a.com/''" c0 0 seed_page d0 "[]" zero_stats
      c0 seed_page "''http://a.com/''" "fst r" "fst (snd r)" "snd (snd r)"]
  from inst ex tx fresh clk
  have e1: "page_text example_env seed_page = ''one'' @ newline @ ''ext'' @ newline @ ''two''"
    "text_files (snd (snd r)) = [text_file example_env ''http://a.com/'' seed_page 0]"
    by simp_all
  from inst returns pages fresh dl0 tick0 ok st
  have a: "texts_saved st1 = 2" "length (text_files c1) = 2"
    "list_all2 (saved_as example_env) (parsed_gets c1) (text_files c1)"
    "text_files (fst (final (crawl_body example_env (start c0))))
       = [text_file example_env ''http://a.com/'' seed_page 1]"
    by simp_all
  have page: "fst (download_page full_disk_env c0 ''http://a.com/'' 0) = Some seed_page"
    unfolding c0_def by code_simp
  then have dl: "download_page full_disk_env c0 ''http://a.com/'' 0 = (Some seed_page, d1)"
    unfolding d1_def by (metis prod.collapse)
  have tick: "clock d1 = 1"
    unfolding d1_def c0_def by code_simp
  have wf: "write_fails full_disk_env 1"
    by code_simp
  have guard: "loop_guard (start c0)"
    unfolding c0_def by code_simp
  from texts_match_pages [of full_disk_env "''http://a.com/''" 3 2 st1 c1
      "''http://a.com/''" c0 0 seed_page d1 "[]" zero_stats
      c0 seed_page "''http://a.com/''" "fst r" "fst (snd r)" "snd (snd r)"]
    fresh dl wf tick guard st
  have "crawl_loop full_disk_env (start c0)
      = Inl (OSError, d1\<lparr>clock := 2\<rparr>, [], zero_stats\<lparr>pages_crawled := pages_crawled zero_stats + 1\<rparr>)"
    by simp
  then have b: "crawl full_disk_env c0 = Inl (OSError, d1\<lparr>clock := 2\<rparr>, [], zero_stats\<lparr>pages_crawled := 1\<rparr>)"
    by (simp add: crawl_def zero_stats_def)
  from returns pages a urls files fresh page0 ok page wf guard b tx e1 show ?thesis
    by (simp add: c0_def st1_def c1_def d0_def d1_def r_def)
qed

end
